theory Spec2Isabelle
  imports Main "HOL-Library.Multiset"
begin

section \<open>JavaScript strings and the string primitives used by the scanner\<close>

text \<open>
  A JavaScript string is a sequence of UTF-16 code units; it is modelled as a list of
  natural numbers, one per code unit, so that \<open>length\<close> counts what \<open>.length\<close> counts.
  \<open>js\<close> turns an ASCII literal into such a list.
\<close>

type_synonym jsstring = "nat list"

definition js :: "string \<Rightarrow> jsstring" where
  "js s = map of_char s"

text \<open>
  The code units matched by \<open>\s\<close> in a regular expression and stripped by
  \<open>String.prototype.trim\<close>: WhiteSpace and LineTerminator of ECMA-262
  (TAB, LF, VT, FF, CR, SP, NBSP, U+1680, U+2000..U+200A, U+2028, U+2029, U+202F,
  U+205F, U+3000, U+FEFF).
\<close>

definition isWhiteSpace :: "nat \<Rightarrow> bool" where
  "isWhiteSpace c \<longleftrightarrow>
     c = 9 \<or> c = 10 \<or> c = 11 \<or> c = 12 \<or> c = 13 \<or> c = 32 \<or> c = 160 \<or> c = 5760 \<or>
     (8192 \<le> c \<and> c \<le> 8202) \<or> c = 8232 \<or> c = 8233 \<or> c = 8239 \<or> c = 8287 \<or>
     c = 12288 \<or> c = 65279"

definition trimStart :: "jsstring \<Rightarrow> jsstring" where
  "trimStart s = dropWhile isWhiteSpace s"

definition trim :: "jsstring \<Rightarrow> jsstring" where
  "trim s = rev (dropWhile isWhiteSpace (rev (dropWhile isWhiteSpace s)))"

text \<open>
  \<open>s.split(sep)\<close> for a separator of one code unit: the pieces between the
  occurrences of the separator, empty pieces included; the empty string gives one
  empty piece. A code unit that is not the separator joins the first piece of the
  rest (the result is never empty, so the first branch of the \<open>case\<close> is never taken).
\<close>

fun split_sep :: "nat \<Rightarrow> jsstring \<Rightarrow> jsstring list" where
  "split_sep sep [] = [[]]"
| "split_sep sep (c # cs) =
     (if c = sep then [] # split_sep sep cs
      else (case split_sep sep cs of
              [] \<Rightarrow> [[c]]
            | p # ps \<Rightarrow> (c # p) # ps))"

text \<open>\<open>xs.join(sep)\<close> on an array of strings, for a separator of one code unit.\<close>

fun join :: "nat \<Rightarrow> jsstring list \<Rightarrow> jsstring" where
  "join sep [] = []"
| "join sep [x] = x"
| "join sep (x # y # ys) = x @ sep # join sep (y # ys)"

text \<open>
  \<open>s.split(/[,\s]+/)\<close>: the pieces between the maximal runs of commas and white
  space. A run at the start or at the end of the string leaves an empty piece there.
\<close>

definition isSeparator :: "nat \<Rightarrow> bool" where
  "isSeparator c \<longleftrightarrow> c = 44 \<or> isWhiteSpace c"

function split_separators :: "jsstring \<Rightarrow> jsstring list" where
  "split_separators [] = [[]]"
| "split_separators (c # cs) =
     (if isSeparator c then [] # split_separators (dropWhile isSeparator cs)
      else (case split_separators cs of
              [] \<Rightarrow> [[c]]
            | p # ps \<Rightarrow> (c # p) # ps))"
  by pat_completeness auto
termination
proof (relation "measure length")
  show "wf (measure length)" by simp
next
  fix c cs
  have "length (dropWhile isSeparator cs) \<le> length cs"
    by (rule length_dropWhile_le)
  then show "(dropWhile isSeparator cs, c # cs) \<in> measure length" by simp
qed simp_all

text \<open>Decimal digits and the value of a digit string, most significant digit first.\<close>

definition isDigit :: "nat \<Rightarrow> bool" where
  "isDigit c \<longleftrightarrow> 48 \<le> c \<and> c \<le> 57"

definition digitsValue :: "jsstring \<Rightarrow> int" where
  "digitsValue ds = foldl (\<lambda>acc c. acc * 10 + int (c - 48)) 0 ds"

text \<open>
  \<open>Number.parseInt(s, 10)\<close>: leading white space is skipped, one sign is read, then
  the longest run of decimal digits; whatever follows the digits is ignored. With no
  digit the result is NaN, here \<open>None\<close>. The value is the mathematical integer;
  JavaScript rounds it to a double, which changes nothing below \<open>2^53\<close> and never moves
  a value across the bounds 0 and 65535 that \<open>parsePorts\<close> compares it with.
\<close>

definition parseInt :: "jsstring \<Rightarrow> int option" where
  "parseInt s =
     (let t = trimStart s;
          u = (if t \<noteq> [] \<and> (hd t = 43 \<or> hd t = 45) then tl t else t);
          z = takeWhile isDigit u
      in if z = [] then None
         else Some (if t \<noteq> [] \<and> hd t = 45 then - digitsValue z else digitsValue z))"

text \<open>
  The text of an integer Number (\<open>String(n)\<close>, as used by \<open>join\<close> and by template
  strings): decimal digits without leading zeros, a minus sign for a negative value.
\<close>

fun natDigits :: "nat \<Rightarrow> jsstring" where
  "natDigits n = (if n < 10 then [48 + n] else natDigits (n div 10) @ [48 + n mod 10])"

declare natDigits.simps [simp del]

definition ToString :: "int \<Rightarrow> jsstring" where
  "ToString i = (if i < 0 then 45 # natDigits (nat (- i)) else natDigits (nat i))"

section \<open>Port list parsing\<close>

text \<open>
  \<open>parsePorts\<close> (page.tsx, lines 58-71). The \<open>Set\<close> keeps its elements in insertion
  order without duplicates; \<open>Array.from(set).sort((a, b) => a - b)\<close> sorts them
  numerically.
\<close>

definition chunks :: "jsstring \<Rightarrow> jsstring list" where
  "chunks v = filter (\<lambda>chunk. chunk \<noteq> []) (map trim (split_separators v))"

definition addPort :: "int list \<Rightarrow> jsstring \<Rightarrow> int list" where
  "addPort st chunk =
     (case parseInt chunk of
        None \<Rightarrow> st
      | Some port \<Rightarrow>
          if port > 0 \<and> port \<le> 65535 then (if port \<in> set st then st else st @ [port])
          else st)"

definition parsePorts :: "jsstring \<Rightarrow> int list" where
  "parsePorts v = sort (foldl addPort [] (chunks v))"

section \<open>Addresses\<close>

text \<open>
  JavaScript numbers are doubles. The model follows them exactly on the integers of
  magnitude at most \<open>2^53\<close>, all of which are doubles: \<open>Num n\<close> is the double whose
  value is the integer \<open>n\<close>. \<open>NaN\<close> is NaN. \<open>Other\<close> stands for a Number outside that
  fragment (a fraction, an infinity, an integer beyond \<open>2^53\<close>): as a result of
  \<open>Number\<close> it is never NaN; arithmetic on it is not followed. The two zeros of
  JavaScript are both \<open>Num 0\<close>: they compare equal and print as \<open>0\<close>.
\<close>

datatype jsnum = NaN | Num int | Other

definition safeInt :: "int \<Rightarrow> jsnum" where
  "safeInt n = (if \<bar>n\<bar> \<le> 2 ^ 53 then Num n else Other)"

definition negate :: "jsnum \<Rightarrow> jsnum" where
  "negate x = (case x of NaN \<Rightarrow> NaN | Num n \<Rightarrow> Num (- n) | Other \<Rightarrow> Other)"

text \<open>
  \<open>x + y\<close>: the sum of two integers is exact when it stays within \<open>2^53\<close>.
  \<open>x * k\<close> for a power of two \<open>k\<close> (here \<open>256 ** 3\<close>, \<open>256 ** 2\<close>, \<open>256\<close>) is
  exact: it only moves the exponent.
\<close>

definition jsadd :: "jsnum \<Rightarrow> jsnum \<Rightarrow> jsnum" where
  "jsadd x y =
     (case (x, y) of
        (NaN, _) \<Rightarrow> NaN
      | (_, NaN) \<Rightarrow> NaN
      | (Num a, Num b) \<Rightarrow> safeInt (a + b)
      | _ \<Rightarrow> Other)"

definition jstimes :: "jsnum \<Rightarrow> int \<Rightarrow> jsnum" where
  "jstimes x k = (case x of NaN \<Rightarrow> NaN | Num a \<Rightarrow> Num (a * k) | Other \<Rightarrow> Other)"

text \<open>
  \<open>Number(s)\<close> on a string (StringToNumber of ECMA-262): white space is trimmed; the
  empty string is 0; \<open>0x\<close>, \<open>0o\<close>, \<open>0b\<close> introduce an unsigned hexadecimal, octal or
  binary integer; otherwise an optional sign is followed by \<open>Infinity\<close> or by a decimal
  literal with optional fraction and exponent. Anything else is NaN.
\<close>

definition hexDigitValue :: "nat \<Rightarrow> nat" where
  "hexDigitValue c =
     (if 48 \<le> c \<and> c \<le> 57 then c - 48
      else if 97 \<le> c \<and> c \<le> 102 then c - 87
      else if 65 \<le> c \<and> c \<le> 70 then c - 55
      else 16)"

definition radixLiteral :: "nat \<Rightarrow> jsstring \<Rightarrow> jsnum" where
  "radixLiteral r ds =
     (if ds \<noteq> [] \<and> list_all (\<lambda>c. hexDigitValue c < r) ds
      then safeInt (foldl (\<lambda>acc c. acc * int r + int (hexDigitValue c)) 0 ds)
      else NaN)"

definition exponentPart :: "jsstring \<Rightarrow> int option" where
  "exponentPart r =
     (case r of
        [] \<Rightarrow> Some 0
      | c # s \<Rightarrow>
          if c = 101 \<or> c = 69 then
            (let d = (if s \<noteq> [] \<and> (hd s = 43 \<or> hd s = 45) then tl s else s)
             in if d \<noteq> [] \<and> list_all isDigit d
                then Some (if s \<noteq> [] \<and> hd s = 45 then - digitsValue d else digitsValue d)
                else None)
          else None)"

definition scaled :: "int \<Rightarrow> int \<Rightarrow> jsnum" where
  "scaled m k =
     (if 0 \<le> k then safeInt (m * 10 ^ nat k)
      else if m mod 10 ^ nat (- k) = 0 then safeInt (m div 10 ^ nat (- k))
      else Other)"

definition unsignedDecimal :: "jsstring \<Rightarrow> jsnum" where
  "unsignedDecimal u =
     (if u = js ''Infinity'' then Other
      else
        let ip = takeWhile isDigit u;
            r1 = dropWhile isDigit u;
            dot = (r1 \<noteq> [] \<and> hd r1 = 46);
            fp = (if dot then takeWhile isDigit (tl r1) else []);
            r2 = (if dot then dropWhile isDigit (tl r1) else r1)
        in if ip = [] \<and> fp = [] then NaN
           else (case exponentPart r2 of
                   None \<Rightarrow> NaN
                 | Some e \<Rightarrow> scaled (digitsValue (ip @ fp)) (e - int (length fp))))"

definition Number :: "jsstring \<Rightarrow> jsnum" where
  "Number s =
     (case trim s of
        [] \<Rightarrow> Num 0
      | c # r \<Rightarrow>
          if c = 48 \<and> r \<noteq> [] \<and> (hd r = 120 \<or> hd r = 88) then radixLiteral 16 (tl r)
          else if c = 48 \<and> r \<noteq> [] \<and> (hd r = 111 \<or> hd r = 79) then radixLiteral 8 (tl r)
          else if c = 48 \<and> r \<noteq> [] \<and> (hd r = 98 \<or> hd r = 66) then radixLiteral 2 (tl r)
          else if c = 43 then unsignedDecimal r
          else if c = 45 then negate (unsignedDecimal r)
          else unsignedDecimal (c # r))"

text \<open>
  What the scanner throws before any worker starts. Each constructor is one
  \<open>throw\<close> of the source:
  \<^item> \<open>InvalidIP\<close>: the \<open>Error\<close> of \<open>ipToNumber\<close> (message: invalid IP);
  \<^item> \<open>RangeInverted\<close>: \<open>Error("O IP final deve ser maior ou igual ao inicial.")\<close>;
  \<^item> \<open>LimitExceeded\<close>: the \<open>Error\<close> of \<open>buildTargetList\<close> for more than \<open>MAX_TARGETS\<close>
    addresses;
  \<^item> \<open>NoPorts\<close>: \<open>Error("Informe ao menos uma porta para varredura.")\<close>;
  \<^item> \<open>NoTargets\<close>: \<open>Error("Nenhum IP encontrado dentro do intervalo.")\<close>;
  \<^item> \<open>InvalidArrayLength\<close>: the RangeError of \<open>new Array(n)\<close> for a negative \<open>n\<close>
    (its message is the engine's; the one of V8 is used below).
\<close>

datatype scan_error =
  InvalidIP | RangeInverted | LimitExceeded | NoPorts | NoTargets | InvalidArrayLength

text \<open>\<open>ipToNumber\<close> (page.tsx, lines 40-48).\<close>

definition ipToNumber :: "jsstring \<Rightarrow> scan_error + jsnum" where
  "ipToNumber ip =
     (let parts = map Number (split_sep 46 (trim ip))
      in if length parts \<noteq> 4 \<or> list_ex (\<lambda>part. part = NaN) parts then Inl InvalidIP
         else Inr (jsadd (jsadd (jsadd (jstimes (parts ! 0) (256 ^ 3))
                                       (jstimes (parts ! 1) (256 ^ 2)))
                                (jstimes (parts ! 2) 256))
                         (parts ! 3)))"

text \<open>
  \<open>numberToIp\<close> (page.tsx, lines 50-56) on an integer. \<open>Math.floor(value / 256 ** k)\<close>
  is the floor division of HOL; the remainder \<open>%\<close> of JavaScript takes the sign of
  the dividend.
\<close>

definition jsrem :: "int \<Rightarrow> int \<Rightarrow> int" where
  "jsrem a m = (if a < 0 then - ((- a) mod m) else a mod m)"

definition numberToIp :: "int \<Rightarrow> jsstring" where
  "numberToIp v =
     (let a = jsrem (v div 256 ^ 3) 256;
          b = jsrem (v div 256 ^ 2) 256;
          c = jsrem (v div 256) 256;
          d = jsrem v 256
      in join 46 (map ToString [a, b, c, d]))"

text \<open>
  \<open>buildTargetList\<close> (page.tsx, lines 73-88). The result is \<open>None\<close> where a boundary
  parses to a Number outside the integer fragment, which the model does not follow.
  On integers the comparisons and the count are exact, and every \<open>startValue + index\<close>
  lies between the two boundaries.
\<close>

definition MAX_TARGETS :: int where
  "MAX_TARGETS = 2048"

definition buildTargetList :: "jsstring \<Rightarrow> jsstring \<Rightarrow> (scan_error + jsstring list) option" where
  "buildTargetList start end' =
     (case ipToNumber start of
        Inl e \<Rightarrow> Some (Inl e)
      | Inr sv \<Rightarrow>
          (case ipToNumber end' of
             Inl e \<Rightarrow> Some (Inl e)
           | Inr ev \<Rightarrow>
               (case (sv, ev) of
                  (Num startValue, Num endValue) \<Rightarrow>
                    Some (if endValue < startValue then Inl RangeInverted
                          else let total = endValue - startValue + 1
                               in if total > MAX_TARGETS then Inl LimitExceeded
                                  else Inr (map (\<lambda>index. numberToIp (startValue + int index))
                                              [0..<nat total]))
                | _ \<Rightarrow> None)))"

section \<open>Probing one port\<close>

datatype PortStatus = Open | Closed | Timeout | Error

datatype ProtocolHint = http | https

record PortResult =
  port :: int
  protocol :: ProtocolHint
  status :: PortStatus
  latency :: "int option"
  errorMessage :: "jsstring option"

record HostResult =
  ip :: jsstring
  ports :: "PortResult list"
  responded :: bool

text \<open>\<open>protocolForPort\<close> (page.tsx, lines 37-38).\<close>

definition protocolForPort :: "int \<Rightarrow> ProtocolHint" where
  "protocolForPort p = (if p = 443 \<or> p = 8443 \<or> p = 9443 then https else http)"

text \<open>
  A value that is thrown or that a promise rejects with, as far as the scanner tells
  values apart: a \<open>DOMException\<close> with its name and message, a \<open>TypeError\<close>, or any
  other value. Of the last two the \<open>message\<close> property is given if it holds a string;
  \<open>None\<close> is a \<open>message\<close> that is \<open>undefined\<close>.
\<close>

datatype js_error =
  DOMException jsstring jsstring
  | TypeError "jsstring option"
  | OtherError "jsstring option"

definition messageOf :: "js_error \<Rightarrow> jsstring option" where
  "messageOf e =
     (case e of DOMException n m \<Rightarrow> Some m | TypeError m \<Rightarrow> m | OtherError m \<Rightarrow> m)"

text \<open>
  \<open>toLowerCase\<close> and \<open>toUpperCase\<close> on the ASCII letters. On other code units the
  Unicode mapping is not followed; it never yields a letter of \<open>fetch\<close>, the only text
  searched for in a lower-cased string, and \<open>toUpperCase\<close> is applied to the fixed
  ASCII names of protocols and statuses only.
\<close>

definition toLowerCase :: "jsstring \<Rightarrow> jsstring" where
  "toLowerCase s = map (\<lambda>c. if 65 \<le> c \<and> c \<le> 90 then c + 32 else c) s"

definition toUpperCase :: "jsstring \<Rightarrow> jsstring" where
  "toUpperCase s = map (\<lambda>c. if 97 \<le> c \<and> c \<le> 122 then c - 32 else c) s"

text \<open>\<open>s.includes(sub)\<close>: \<open>sub\<close> occurs in \<open>s\<close>.\<close>

fun str_includes :: "jsstring \<Rightarrow> jsstring \<Rightarrow> bool" where
  "str_includes [] sub = (sub = [])"
| "str_includes (c # cs) sub = (take (length sub) (c # cs) = sub \<or> str_includes cs sub)"

text \<open>
  \<open>mapErrorToStatus\<close> (page.tsx, lines 90-101). For a \<open>TypeError\<close> it evaluates
  \<open>error.message.toLowerCase()\<close>; when the message is \<open>undefined\<close> that call throws
  a \<open>TypeError\<close> of its own (its message is the engine's; the one of V8 is used), and
  \<open>mapErrorToStatus\<close> returns nothing: \<open>Inl\<close> is what it throws.
\<close>

definition toLowerCaseFailure :: js_error where
  "toLowerCaseFailure =
     TypeError (Some (js ''Cannot read properties of undefined (reading '' @ [39] @
                      js ''toLowerCase'' @ [39] @ js '')''))"

definition mapErrorToStatus :: "js_error \<Rightarrow> js_error + PortStatus" where
  "mapErrorToStatus e =
     (case e of
        DOMException n m \<Rightarrow> Inr (if n = js ''AbortError'' then Timeout else Error)
      | TypeError None \<Rightarrow> Inl toLowerCaseFailure
      | TypeError (Some m) \<Rightarrow>
          Inr (if str_includes (toLowerCase m) (js ''fetch'') then Closed else Error)
      | OtherError m \<Rightarrow> Inr Error)"

text \<open>
  How the awaited \<open>fetch\<close> of \<open>scanPort\<close> settles: fulfilled, with the rounded elapsed
  time \<open>Math.round(performance.now() - startedAt)\<close>, or rejected with an error value.
\<close>

datatype fetch_outcome = Fulfilled int | Rejected js_error

text \<open>
  What \<open>scanPort\<close> does once its \<open>fetch\<close> has settled (page.tsx, lines 162-181): the
  result it returns, or, as \<open>Inl\<close>, what it throws from its \<open>catch\<close> when
  \<open>mapErrorToStatus\<close> throws. The address only enters the URL.
\<close>

definition scanPort_settled :: "jsstring \<Rightarrow> int \<Rightarrow> fetch_outcome \<Rightarrow> js_error + PortResult" where
  "scanPort_settled a p outcome =
     (case outcome of
        Fulfilled l \<Rightarrow>
          Inr \<lparr>port = p, protocol = protocolForPort p, status = Open,
               latency = Some l, errorMessage = None\<rparr>
      | Rejected e \<Rightarrow>
          (case mapErrorToStatus e of
             Inl thrown \<Rightarrow> Inl thrown
           | Inr st \<Rightarrow>
               Inr \<lparr>port = p, protocol = protocolForPort p, status = st,
                    latency = None,
                    errorMessage =
                      (if st = Error
                       then Some (case messageOf e of Some m \<Rightarrow> m
                                  | None \<Rightarrow> js ''Erro desconhecido'')
                       else None)\<rparr>))"

text \<open>
  \<open>controller.abort()\<close> is called without a reason by the probe's own timer
  (line 150), by \<open>handleCancel\<close> (line 200) and by the \<open>finally\<close> of \<open>handleScan\<close>
  (line 265). Whoever calls it, a pending \<open>fetch\<close> with that signal rejects with the
  \<open>DOMException\<close> named \<open>AbortError\<close>.
\<close>

datatype abort_source = ProbeTimer | HandleCancel | HandleScanFinally

definition abortedFetch :: "abort_source \<Rightarrow> jsstring \<Rightarrow> fetch_outcome" where
  "abortedFetch src msg = Rejected (DOMException (js ''AbortError'') msg)"

definition abortMessage :: jsstring where
  "abortMessage = js ''signal is aborted without reason''"

text \<open>
  Time is counted in whole milliseconds from the start of the probe. The network side
  of a \<open>fetch\<close> ends, if it ever does, with a response or with a failure.
\<close>

datatype network_event = Responds | Fails js_error

definition networkOutcome :: "nat \<Rightarrow> network_event \<Rightarrow> fetch_outcome" where
  "networkOutcome t ev = (case ev of Responds \<Rightarrow> Fulfilled (int t) | Fails e \<Rightarrow> Rejected e)"

text \<open>
  \<open>fetch(url, {signal})\<close>: the promise settles with what the network does, or
  rejects when the signal is aborted, whichever comes first (the network, when both
  come at the same time). With no abort and a network that never answers it never
  settles: \<open>None\<close>. The result is the time of settling and the outcome.
\<close>

definition fetchSettles ::
  "(nat \<times> abort_source) option \<Rightarrow> (nat \<times> network_event) option \<Rightarrow> (nat \<times> fetch_outcome) option"
where
  "fetchSettles abort net =
     (case (abort, net) of
        (None, None) \<Rightarrow> None
      | (None, Some (t, ev)) \<Rightarrow> Some (t, networkOutcome t ev)
      | (Some (d, src), None) \<Rightarrow> Some (d, abortedFetch src abortMessage)
      | (Some (d, src), Some (t, ev)) \<Rightarrow>
          if t \<le> d then Some (t, networkOutcome t ev)
          else Some (d, abortedFetch src abortMessage))"

text \<open>
  \<open>window.setTimeout(f, timeoutMs)\<close>: the delay is converted to a signed 32-bit
  integer and a negative delay counts as 0.
\<close>

definition timerDelay :: "int \<Rightarrow> nat" where
  "timerDelay timeoutMs =
     (let w = (timeoutMs + 2 ^ 31) mod 2 ^ 32 - 2 ^ 31 in if w < 0 then 0 else nat w)"

text \<open>
  The first abort of a probe's controller: by its own timer, which is always set, or
  by a cancellation at \<open>cancelAt\<close>, if one comes earlier.
\<close>

definition firstAbort :: "int \<Rightarrow> nat option \<Rightarrow> nat \<times> abort_source" where
  "firstAbort timeoutMs cancelAt =
     (case cancelAt of
        None \<Rightarrow> (timerDelay timeoutMs, ProbeTimer)
      | Some c \<Rightarrow>
          if c < timerDelay timeoutMs then (c, HandleCancel)
          else (timerDelay timeoutMs, ProbeTimer))"

text \<open>
  \<open>scanPort\<close> (page.tsx, lines 145-185): it sets the timer that aborts its controller
  after \<open>timeoutMs\<close>, awaits the \<open>fetch\<close>, and goes on as \<open>scanPort_settled\<close>. The result
  is the time at which the probe settles and what it settles with, \<open>Inr\<close> a
  \<open>PortResult\<close> it resolves with or \<open>Inl\<close> an error it rejects with; \<open>None\<close> would be
  a probe that never settles. Registering and unregistering the controller are steps
  of the scan run below.
\<close>

definition scanPort ::
  "int \<Rightarrow> nat option \<Rightarrow> (nat \<times> network_event) option \<Rightarrow> jsstring \<Rightarrow> int \<Rightarrow>
   (nat \<times> (js_error + PortResult)) option"
where
  "scanPort timeoutMs cancelAt net a p =
     (case fetchSettles (Some (firstAbort timeoutMs cancelAt)) net of
        None \<Rightarrow> None
      | Some (t, outcome) \<Rightarrow> Some (t, scanPort_settled a p outcome))"

section \<open>Scanning one host\<close>

text \<open>
  \<open>Promise.all\<close> on promises that all settle: it resolves with the results in the
  order of the promises, or rejects with the error of one that rejected. The first
  rejection in the list is taken here; every rejection of a probe is the same value
  (lemma \<open>scanPort_settled_throws\<close>), so which one is taken makes no difference.
\<close>

fun promiseAll :: "(js_error + 'a) list \<Rightarrow> js_error + 'a list" where
  "promiseAll [] = Inr []"
| "promiseAll (Inl e # xs) = Inl e"
| "promiseAll (Inr r # xs) = (case promiseAll xs of Inl e \<Rightarrow> Inl e | Inr rs \<Rightarrow> Inr (r # rs))"

text \<open>
  \<open>scanHost\<close> (page.tsx, lines 187-196), as a function of how the \<open>fetch\<close> of each of
  its probes settles: \<open>env i\<close> is the outcome for the \<open>i\<close>-th port. \<open>Inl\<close> is the error
  it rejects with.
\<close>

definition scanHost ::
  "(nat \<Rightarrow> fetch_outcome) \<Rightarrow> jsstring \<Rightarrow> int list \<Rightarrow> js_error + HostResult" where
  "scanHost env a ps =
     (case promiseAll (map (\<lambda>i. scanPort_settled a (ps ! i) (env i)) [0..<length ps]) of
        Inl e \<Rightarrow> Inl e
      | Inr portResults \<Rightarrow>
          Inr \<lparr>ip = a, ports = portResults,
               responded = (list_ex (\<lambda>item. status item = Open) portResults \<or>
                            list_all (\<lambda>item. status item = Timeout) portResults)\<rparr>)"

text \<open>The \<open>failedHost\<close> built in the \<open>catch\<close> of the worker loop (lines 236-247).\<close>

definition failedHost :: "jsstring \<Rightarrow> int list \<Rightarrow> js_error \<Rightarrow> HostResult" where
  "failedHost a ps e =
     \<lparr>ip = a,
      ports = map (\<lambda>p. \<lparr>port = p, protocol = protocolForPort p, status = Error,
                         latency = None,
                         errorMessage =
                           Some (case messageOf e of Some m \<Rightarrow> m
                                 | None \<Rightarrow> js ''Falha desconhecida'')\<rparr>) ps,
      responded = False\<rparr>"

section \<open>The scan run\<close>

text \<open>
  The state of the component that a run reads and writes: the React state
  (\<open>progress\<close>, \<open>results\<close>, \<open>statusMessage\<close>, \<open>isScanning\<close>), the two refs
  (\<open>controllersRef.current\<close>, \<open>cancelRequestedRef.current\<close>) and the locals of one
  call of \<open>handleScan\<close> (\<open>queue\<close>, \<open>ports\<close>, here \<open>portList\<close>, and the workers).
  An \<open>AbortController\<close> is a number, its identity; \<open>aborted\<close> holds the controllers
  whose \<open>abort()\<close> was called.
\<close>

record ScanProgress =
  current :: nat
  total :: nat

text \<open>
  A worker is at the head of its \<open>while\<close> loop, or suspended in
  \<open>await scanHost(ip, ports)\<close> for the address it took, or has returned.
\<close>

datatype worker = Looping | Awaiting jsstring | Finished

record app_state =
  progress :: ScanProgress
  results :: "HostResult list"
  statusMessage :: "jsstring option"
  isScanning :: bool
  controllers :: "nat list"
  aborted :: "nat set"
  cancelRequested :: bool
  queue :: "jsstring list"
  portList :: "int list"
  workers :: "worker list"

text \<open>The inputs of the form that \<open>handleScan\<close> reads.\<close>

record inputs =
  startIp :: jsstring
  endIp :: jsstring
  portsInput :: jsstring
  concurrency :: int

text \<open>The status messages; code units above 127 are written as numbers.\<close>

definition msgInterrupted :: jsstring where
  "msgInterrupted = js ''Varredura interrompida pelo usu'' @ [225] @ js ''rio.''"

definition msgDone :: jsstring where
  "msgDone = js ''Varredura conclu'' @ [237] @ js ''da.''"

definition message :: "scan_error \<Rightarrow> jsstring" where
  "message e =
     (case e of
        InvalidIP \<Rightarrow> js ''IP inv'' @ [225] @ js ''lido''
      | RangeInverted \<Rightarrow> js ''O IP final deve ser maior ou igual ao inicial.''
      | LimitExceeded \<Rightarrow>
          js ''Limite m'' @ [225] @ js ''ximo de '' @ ToString MAX_TARGETS @ js '' endere'' @
          [231] @ js ''os por varredura excedido.''
      | NoPorts \<Rightarrow> js ''Informe ao menos uma porta para varredura.''
      | NoTargets \<Rightarrow> js ''Nenhum IP encontrado dentro do intervalo.''
      | InvalidArrayLength \<Rightarrow> js ''Invalid array length'')"

text \<open>\<open>registerController\<close> and the \<open>unregister\<close> it returns (page.tsx, lines 136-143).\<close>

definition registerController :: "nat \<Rightarrow> app_state \<Rightarrow> app_state" where
  "registerController c s = s\<lparr>controllers := controllers s @ [c]\<rparr>"

definition unregister :: "nat \<Rightarrow> app_state \<Rightarrow> app_state" where
  "unregister c s = s\<lparr>controllers := filter (\<lambda>item. item \<noteq> c) (controllers s)\<rparr>"

text \<open>\<open>handleCancel\<close> (page.tsx, lines 198-204).\<close>

definition handleCancel :: "app_state \<Rightarrow> app_state" where
  "handleCancel s =
     s\<lparr>cancelRequested := True,
       aborted := aborted s \<union> set (controllers s),
       controllers := [],
       statusMessage := Some msgInterrupted,
       isScanning := False\<rparr>"

text \<open>
  The cancel operation offered to the user: the button "Cancelar" has
  \<open>onClick={handleCancel}\<close> and \<open>disabled={!isScanning}\<close> (lines 415-419), and a
  disabled button dispatches no click.
\<close>

definition cancel :: "app_state \<Rightarrow> app_state" where
  "cancel s = (if isScanning s then handleCancel s else s)"

text \<open>
  \<open>handleScan\<close> (page.tsx, lines 206-270) in three parts: what runs before the workers
  (\<open>handleScan_start\<close>), the worker loop (\<open>worker_step\<close>), and what runs after
  \<open>await Promise.all(workers)\<close> (\<open>handleScan_finish\<close>). The model follows one call of
  \<open>handleScan\<close>: it does not follow a second call made while workers of a cancelled
  call are still suspended.
\<close>

definition finallyBlock :: "app_state \<Rightarrow> app_state" where
  "finallyBlock s =
     s\<lparr>aborted := aborted s \<union> set (controllers s),
       controllers := [],
       isScanning := False,
       cancelRequested := False\<rparr>"

definition catchBlock :: "scan_error \<Rightarrow> app_state \<Rightarrow> app_state" where
  "catchBlock e s = finallyBlock (s\<lparr>statusMessage := Some (message e)\<rparr>)"

datatype start_result = Failed scan_error app_state | Started app_state

text \<open>
  \<open>None\<close> is inherited from \<open>buildTargetList\<close>. \<open>concurrency\<close> is an integer here;
  \<open>new Array(n)\<close> throws for a negative \<open>n\<close>. Each worker starts at the head of its
  loop.
\<close>

definition handleScan_start :: "inputs \<Rightarrow> app_state \<Rightarrow> start_result option" where
  "handleScan_start inp s =
     (let s1 = s\<lparr>statusMessage := None\<rparr>;
          ps = parsePorts (portsInput inp)
      in if ps = [] then Some (Failed NoPorts (catchBlock NoPorts s1))
         else
           (case buildTargetList (startIp inp) (endIp inp) of
              None \<Rightarrow> None
            | Some (Inl e) \<Rightarrow> Some (Failed e (catchBlock e s1))
            | Some (Inr targets) \<Rightarrow>
                if targets = [] then Some (Failed NoTargets (catchBlock NoTargets s1))
                else
                  (let s2 = s1\<lparr>cancelRequested := False,
                                 progress := \<lparr>current = 0, total = length targets\<rparr>,
                                 results := [],
                                 isScanning := True\<rparr>;
                       n = min (concurrency inp) (int (length targets))
                   in if n < 0
                      then Some (Failed InvalidArrayLength (catchBlock InvalidArrayLength s2))
                      else Some (Started (s2\<lparr>queue := targets, portList := ps,
                                              workers := replicate (nat n) Looping\<rparr>)))))"

text \<open>
  One step of one worker (page.tsx, lines 228-254). Between two \<open>await\<close>s a worker
  runs alone; the steps below are the pieces of its loop body:
  \<^item> \<open>dequeue\<close>: the loop condition holds, \<open>queue.shift()\<close> gives an address, and the
    worker suspends in \<open>await scanHost(ip, ports)\<close>;
  \<^item> \<open>dequeue_falsy\<close>: \<open>queue.shift()\<close> gives the empty string and \<open>if (!ip) return\<close>
    ends the worker;
  \<^item> \<open>leave\<close>: the loop condition fails, because the queue is empty or a
    cancellation was requested;
  \<^item> \<open>resolved\<close>: \<open>scanHost\<close> resolves with \<open>h\<close>; the host result is appended and the
    \<open>finally\<close> increments the progress;
  \<^item> \<open>rejected\<close>: \<open>scanHost\<close> rejects with \<open>e\<close>; the \<open>catch\<close> appends \<open>failedHost\<close>
    and the \<open>finally\<close> increments the progress.
  In the last two \<open>env\<close> is how the probes of that host settled.
\<close>

inductive worker_step :: "app_state \<Rightarrow> app_state \<Rightarrow> bool" where
  dequeue:
    "i < length (workers s) \<Longrightarrow> workers s ! i = Looping \<Longrightarrow> queue s = a # rest \<Longrightarrow>
     \<not> cancelRequested s \<Longrightarrow> a \<noteq> [] \<Longrightarrow>
     worker_step s (s\<lparr>queue := rest, workers := (workers s)[i := Awaiting a]\<rparr>)"
| dequeue_falsy:
    "i < length (workers s) \<Longrightarrow> workers s ! i = Looping \<Longrightarrow> queue s = [] # rest \<Longrightarrow>
     \<not> cancelRequested s \<Longrightarrow>
     worker_step s (s\<lparr>queue := rest, workers := (workers s)[i := Finished]\<rparr>)"
| leave:
    "i < length (workers s) \<Longrightarrow> workers s ! i = Looping \<Longrightarrow>
     queue s = [] \<or> cancelRequested s \<Longrightarrow>
     worker_step s (s\<lparr>workers := (workers s)[i := Finished]\<rparr>)"
| resolved:
    "i < length (workers s) \<Longrightarrow> workers s ! i = Awaiting a \<Longrightarrow>
     scanHost env a (portList s) = Inr h \<Longrightarrow>
     worker_step s
       (s\<lparr>results := results s @ [h],
          progress := (progress s)\<lparr>current := current (progress s) + 1\<rparr>,
          workers := (workers s)[i := Looping]\<rparr>)"
| rejected:
    "i < length (workers s) \<Longrightarrow> workers s ! i = Awaiting a \<Longrightarrow>
     scanHost env a (portList s) = Inl e \<Longrightarrow>
     worker_step s
       (s\<lparr>results := results s @ [failedHost a (portList s) e],
          progress := (progress s)\<lparr>current := current (progress s) + 1\<rparr>,
          workers := (workers s)[i := Looping]\<rparr>)"

text \<open>
  What else happens while the workers are suspended: the user clicks "Cancelar"; the
  user clicks "Limpar resultados" (\<open>setResults([])\<close>, lines 467-473), a button that is
  there whenever \<open>results\<close> is not empty; a probe registers or unregisters its
  controller; a probe's timer aborts its controller.
\<close>

inductive other_step :: "app_state \<Rightarrow> app_state \<Rightarrow> bool" where
  click_cancel: "other_step s (cancel s)"
| click_clear: "results s \<noteq> [] \<Longrightarrow> other_step s (s\<lparr>results := []\<rparr>)"
| probe_register: "other_step s (registerController c s)"
| probe_unregister: "other_step s (unregister c s)"
| timer_abort: "other_step s (s\<lparr>aborted := insert c (aborted s)\<rparr>)"

definition step :: "app_state \<Rightarrow> app_state \<Rightarrow> bool" where
  "step s s' \<longleftrightarrow> worker_step s s' \<or> other_step s s'"

text \<open>A step that is not a click on "Limpar resultados".\<close>

definition step_without_clear :: "app_state \<Rightarrow> app_state \<Rightarrow> bool" where
  "step_without_clear s s' \<longleftrightarrow> worker_step s s' \<or> (other_step s s' \<and> results s' = results s)"

definition allFinished :: "app_state \<Rightarrow> bool" where
  "allFinished s \<longleftrightarrow> list_all (\<lambda>w. w = Finished) (workers s)"

definition handleScan_finish :: "app_state \<Rightarrow> app_state" where
  "handleScan_finish s =
     finallyBlock (if \<not> cancelRequested s then s\<lparr>statusMessage := Some msgDone\<rparr> else s)"

text \<open>The addresses the suspended workers are scanning.\<close>

fun awaited :: "worker list \<Rightarrow> jsstring list" where
  "awaited [] = []"
| "awaited (Awaiting a # ws) = a # awaited ws"
| "awaited (w # ws) = awaited ws"

text \<open>
  The work left to the workers: every step of a worker makes it smaller, so the
  workers take at most that many steps.
\<close>

fun workerWeight :: "worker \<Rightarrow> nat" where
  "workerWeight Looping = 1"
| "workerWeight (Awaiting a) = 2"
| "workerWeight Finished = 0"

definition workLeft :: "app_state \<Rightarrow> nat" where
  "workLeft s = 3 * length (queue s) + sum_list (map workerWeight (workers s))"

text \<open>The invariant of the claim on \<open>responded\<close>.\<close>

definition respondedInvariant :: "HostResult \<Rightarrow> bool" where
  "respondedInvariant h \<longleftrightarrow>
     (responded h \<longleftrightarrow>
        list_ex (\<lambda>p. status p = Open) (ports h) \<or> list_all (\<lambda>p. status p = Timeout) (ports h))"

section \<open>CSV export\<close>

text \<open>\<open>handleDownload\<close> (page.tsx, lines 272-301), up to the text handed to the \<open>Blob\<close>.\<close>

definition header :: jsstring where
  "header = js ''IP,Porta,Protocolo,Status,Lat'' @ [234] @ js ''ncia(ms),Mensagem''"

definition protocolText :: "ProtocolHint \<Rightarrow> jsstring" where
  "protocolText h = (case h of http \<Rightarrow> js ''http'' | https \<Rightarrow> js ''https'')"

definition statusText :: "PortStatus \<Rightarrow> jsstring" where
  "statusText st =
     (case st of Open \<Rightarrow> js ''open'' | Closed \<Rightarrow> js ''closed'' | Timeout \<Rightarrow> js ''timeout''
      | Error \<Rightarrow> js ''error'')"

text \<open>\<open>m.replace(/[\r\n]+/g, " ")\<close>: every maximal run of CR and LF becomes one space.\<close>

definition isLineBreak :: "nat \<Rightarrow> bool" where
  "isLineBreak c \<longleftrightarrow> c = 13 \<or> c = 10"

fun collapseLineBreaks :: "jsstring \<Rightarrow> jsstring" where
  "collapseLineBreaks [] = []"
| "collapseLineBreaks (c # cs) =
     (if isLineBreak c
      then (if cs \<noteq> [] \<and> isLineBreak (hd cs) then collapseLineBreaks cs
            else 32 # collapseLineBreaks cs)
      else c # collapseLineBreaks cs)"

definition csvLine :: "HostResult \<Rightarrow> PortResult \<Rightarrow> jsstring" where
  "csvLine host p =
     join 44
       [ip host,
        ToString (port p),
        toUpperCase (protocolText (protocol p)),
        toUpperCase (statusText (status p)),
        (case latency p of None \<Rightarrow> [] | Some l \<Rightarrow> ToString l),
        (case errorMessage p of
           None \<Rightarrow> []
         | Some m \<Rightarrow> if m = [] then [] else collapseLineBreaks m)]"

definition csvContent :: "HostResult list \<Rightarrow> jsstring" where
  "csvContent rs = join 10 (header # concat (map (\<lambda>host. map (csvLine host) (ports host)) rs))"

definition handleDownload :: "HostResult list \<Rightarrow> jsstring option" where
  "handleDownload rs = (if rs = [] then None else Some (csvContent rs))"

section \<open>Notions of the specification\<close>

text \<open>
  A well-formed boundary address, in the words of the specification: exactly four
  dot-separated components, each a decimal numeral of value at most 255. It is
  canonical when no component has a leading zero.
\<close>

definition octetText :: "jsstring \<Rightarrow> bool" where
  "octetText part \<longleftrightarrow> part \<noteq> [] \<and> list_all isDigit part \<and> digitsValue part \<le> 255"

definition wellFormedAddress :: "jsstring \<Rightarrow> bool" where
  "wellFormedAddress a \<longleftrightarrow>
     length (split_sep 46 a) = 4 \<and> list_all octetText (split_sep 46 a)"

definition canonicalAddress :: "jsstring \<Rightarrow> bool" where
  "canonicalAddress a \<longleftrightarrow>
     wellFormedAddress a \<and>
     list_all (\<lambda>part. part = ToString (digitsValue part)) (split_sep 46 a)"

text \<open>
  A token that is a base-10 integer, in the words of the specification: decimal
  digits, possibly after one sign.
\<close>

definition isBase10Integer :: "jsstring \<Rightarrow> bool" where
  "isBase10Integer tok \<longleftrightarrow>
     (let d = (if tok \<noteq> [] \<and> (hd tok = 43 \<or> hd tok = 45) then tl tok else tok)
      in d \<noteq> [] \<and> list_all isDigit d)"

section \<open>Invariants of a run\<close>

text \<open>
  The targets a state accounts for: the addresses of the results, the addresses the
  suspended workers are scanning, and the addresses still in the queue.
\<close>

definition accounted :: "app_state \<Rightarrow> jsstring multiset" where
  "accounted s = mset (map ip (results s)) + mset (awaited (workers s)) + mset (queue s)"

text \<open>
  What holds in every state of a run over the addresses \<open>targets\<close>: the completed
  hosts, the hosts being scanned and the hosts in the queue are as many as the
  targets; the results are at most as many as the completed hosts and, with the hosts
  being scanned and the hosts queued, they are among the targets; no queued address is
  the empty string; and a worker has only returned if the queue is empty or a
  cancellation was requested.
\<close>

definition runInvariant :: "jsstring list \<Rightarrow> app_state \<Rightarrow> bool" where
  "runInvariant targets s \<longleftrightarrow>
     total (progress s) = length targets \<and>
     current (progress s) + length (awaited (workers s)) + length (queue s) = length targets \<and>
     length (results s) \<le> current (progress s) \<and>
     accounted s \<subseteq># mset targets \<and>
     [] \<notin> set (queue s) \<and>
     workers s \<noteq> [] \<and>
     (Finished \<in> set (workers s) \<longrightarrow> queue s = [] \<or> cancelRequested s)"

text \<open>
  What holds in addition as long as the results are not cleared: every completed host
  has its result, and every target is in exactly one place.
\<close>

definition exactInvariant :: "jsstring list \<Rightarrow> app_state \<Rightarrow> bool" where
  "exactInvariant targets s \<longleftrightarrow>
     current (progress s) = length (results s) \<and> accounted s = mset targets \<and>
     [] \<notin> set (queue s)"

definition resultsInvariant :: "app_state \<Rightarrow> bool" where
  "resultsInvariant s \<longleftrightarrow> portList s \<noteq> [] \<and> list_all respondedInvariant (results s)"

section \<open>An example run\<close>

text \<open>
  The state of the component when it is mounted (the initial values of \<open>useState\<close>
  and \<open>useRef\<close>), and a short run from it: the range \<open>10.0.0.1\<close> to \<open>10.0.0.2\<close>, port
  80, one worker; the worker takes the first address and its host scan resolves with
  the probe fulfilled after 5 ms.
\<close>

definition initialState :: app_state where
  "initialState =
     \<lparr>progress = \<lparr>current = 0, total = 0\<rparr>, results = [], statusMessage = None,
      isScanning = False, controllers = [], aborted = {}, cancelRequested = False,
      queue = [], portList = [], workers = []\<rparr>"

definition exampleInputs :: inputs where
  "exampleInputs =
     \<lparr>startIp = js ''10.0.0.1'', endIp = js ''10.0.0.2'', portsInput = js ''80'',
      concurrency = 1\<rparr>"

definition run0 :: app_state where
  "run0 =
     \<lparr>progress = \<lparr>current = 0, total = 2\<rparr>, results = [], statusMessage = None,
      isScanning = True, controllers = [], aborted = {}, cancelRequested = False,
      queue = [js ''10.0.0.1'', js ''10.0.0.2''], portList = [80], workers = [Looping]\<rparr>"

definition run1 :: app_state where
  "run1 = run0\<lparr>queue := [js ''10.0.0.2''], workers := [Awaiting (js ''10.0.0.1'')]\<rparr>"

definition exampleHost :: HostResult where
  "exampleHost =
     \<lparr>ip = js ''10.0.0.1'',
      ports = [\<lparr>port = 80, protocol = http, status = Open, latency = Some 5,
                errorMessage = None\<rparr>],
      responded = True\<rparr>"

definition run2 :: app_state where
  "run2 =
     run1\<lparr>results := [exampleHost], progress := \<lparr>current = 1, total = 2\<rparr>,
          workers := [Looping]\<rparr>"


section \<open>Properties of port list parsing\<close>

lemma addPort_set:
  "set (addPort st chunk) =
     set st \<union> {p. parseInt chunk = Some p \<and> 0 < p \<and> p \<le> 65535}"
  by (auto simp: addPort_def split: option.splits)

lemma addPort_distinct: "distinct st \<Longrightarrow> distinct (addPort st chunk)"
  by (auto simp: addPort_def split: option.splits)

lemma foldl_addPort_set:
  "set (foldl addPort st cs) =
     set st \<union> {p. \<exists>chunk \<in> set cs. parseInt chunk = Some p \<and> 0 < p \<and> p \<le> 65535}"
proof (induction cs arbitrary: st)
  case Nil
  then show ?case by simp
next
  case (Cons c cs)
  show ?case
    unfolding foldl_Cons Cons.IH addPort_set by auto
qed

lemma foldl_addPort_distinct: "distinct st \<Longrightarrow> distinct (foldl addPort st cs)"
  by (induction cs arbitrary: st) (simp_all add: addPort_distinct)

lemma parsePorts_set:
  "set (parsePorts v) =
     {p. \<exists>chunk \<in> set (chunks v). parseInt chunk = Some p \<and> 0 < p \<and> p \<le> 65535}"
  by (simp add: parsePorts_def foldl_addPort_set)

lemma parsePorts_ascending: "sorted_wrt (<) (parsePorts v)"
  by (simp add: parsePorts_def strict_sorted_iff foldl_addPort_distinct)

lemmas parse_eval = parsePorts_def chunks_def addPort_def parseInt_def js_def trim_def
  trimStart_def isSeparator_def isWhiteSpace_def isDigit_def digitsValue_def

lemma parsePorts_example: "parsePorts (js ''80, 443 ,, abc, 99999, 22'') = [22, 80, 443]"
  by (simp add: parse_eval)

text \<open>
  Claim C3, as the specification states it, asks that a token is accepted as a port
  only if the token is a base-10 integer. \<open>Number.parseInt\<close> reads the leading digits
  of a token and ignores what follows them: the token \<open>80abc\<close> is not a base-10
  integer, and it is accepted as port 80.
\<close>

theorem parsePorts_prefix_counterexample:
  "chunks (js ''80abc'') = [js ''80abc''] \<and> \<not> isBase10Integer (js ''80abc'') \<and>
   parsePorts (js ''80abc'') = [80]"
  by (simp add: parse_eval isBase10Integer_def)

text \<open>
  Claim C3, amended: for every input string, the result of port parsing is strictly
  ascending (hence without duplicates) and holds exactly the integers within
  [1, 65535] that \<open>Number.parseInt\<close> reads from some non-empty trimmed token, that is,
  the value of the token's leading sign and decimal digits; every other token is
  dropped, and no input makes the function fail. On \<open>80, 443 ,, abc, 99999, 22\<close> the
  result is \<open>[22, 80, 443]\<close>.
\<close>

theorem parsePorts_spec:
  "sorted_wrt (<) (parsePorts v) \<and>
   set (parsePorts v) =
     {p. \<exists>chunk \<in> set (chunks v). parseInt chunk = Some p \<and> 1 \<le> p \<and> p \<le> 65535} \<and>
   parsePorts (js ''80, 443 ,, abc, 99999, 22'') = [22, 80, 443]"
  using parsePorts_ascending [of v] parsePorts_set [of v] parsePorts_example by auto

theorem parsePorts_spec_witness:
  "sorted_wrt (<) (parsePorts (js ''443 80x 80'')) \<and>
   set (parsePorts (js ''443 80x 80'')) =
     {p. \<exists>chunk \<in> set (chunks (js ''443 80x 80'')).
           parseInt chunk = Some p \<and> 1 \<le> p \<and> p \<le> 65535} \<and>
   parsePorts (js ''80, 443 ,, abc, 99999, 22'') = [22, 80, 443]"
  using parsePorts_spec [of "js ''443 80x 80''"] by simp

section \<open>Properties of the address conversions\<close>

lemma natDigits_digits: "list_all isDigit (natDigits n)"
proof (induction n rule: natDigits.induct)
  case (1 n)
  show ?case
  proof (cases "n < 10")
    case True
    then show ?thesis by (subst natDigits.simps) (simp add: isDigit_def)
  next
    case False
    have "n mod 10 < 10" by simp
    then have "isDigit (48 + n mod 10)" unfolding isDigit_def by linarith
    with False 1 show ?thesis by (subst natDigits.simps) simp
  qed
qed

lemma natDigits_nonempty: "natDigits n \<noteq> []"
  by (subst natDigits.simps) simp

lemma digitsValue_snoc: "digitsValue (ds @ [d]) = digitsValue ds * 10 + int (d - 48)"
  by (simp add: digitsValue_def)

lemma digitsValue_natDigits: "digitsValue (natDigits n) = int n"
proof (induction n rule: natDigits.induct)
  case (1 n)
  show ?case
  proof (cases "n < 10")
    case True
    then show ?thesis by (subst natDigits.simps) (simp add: digitsValue_def)
  next
    case False
    with 1 have "digitsValue (natDigits (n div 10)) = int (n div 10)" by simp
    with False show ?thesis
      by (subst natDigits.simps) (simp add: digitsValue_snoc zdiv_int zmod_int)
  qed
qed

lemma digitsValue_nonneg: "0 \<le> digitsValue ds"
proof (induction ds rule: rev_induct)
  case Nil
  then show ?case by (simp add: digitsValue_def)
next
  case (snoc d ds)
  then show ?case by (simp add: digitsValue_snoc)
qed

lemma split_sep_nonempty: "split_sep c s \<noteq> []"
  by (induction s) (auto split: list.splits)

lemma split_sep_single: "c \<notin> set x \<Longrightarrow> split_sep c x = [x]"
  by (induction x) auto

lemma split_sep_append: "c \<notin> set x \<Longrightarrow> split_sep c (x @ c # r) = x # split_sep c r"
  by (induction x) auto

lemma split_sep_join:
  "xs \<noteq> [] \<Longrightarrow> \<forall>x \<in> set xs. c \<notin> set x \<Longrightarrow> split_sep c (join c xs) = xs"
proof (induction c xs rule: join.induct)
  case (1 sep)
  then show ?case by simp
next
  case (2 sep x)
  then show ?case by (simp add: split_sep_single)
next
  case (3 sep x y ys)
  then show ?case by (simp add: split_sep_append)
qed

lemma join_split_sep: "join c (split_sep c s) = s"
proof (induction s)
  case Nil
  then show ?case by simp
next
  case (Cons a s)
  show ?case
  proof (cases "a = c")
    case True
    with Cons show ?thesis
      by (cases "split_sep c s") (simp_all add: split_sep_nonempty)
  next
    case False
    with Cons show ?thesis
      by (cases "split_sep c s"; cases "tl (split_sep c s)") (auto simp: split_sep_nonempty)
  qed
qed

lemma split_sep_no_sep: "\<forall>x \<in> set (split_sep c s). c \<notin> set x"
  by (induction s) (auto split: list.splits)

lemma digit_not_white: "isDigit c \<Longrightarrow> \<not> isWhiteSpace c"
  by (auto simp: isDigit_def isWhiteSpace_def)

lemma dropWhile_hd_id: "xs \<noteq> [] \<Longrightarrow> \<not> P (hd xs) \<Longrightarrow> dropWhile P xs = xs"
  by (cases xs) simp_all

lemma trim_id: "s \<noteq> [] \<Longrightarrow> \<not> isWhiteSpace (hd s) \<Longrightarrow> \<not> isWhiteSpace (last s) \<Longrightarrow> trim s = s"
proof -
  assume a: "s \<noteq> []" "\<not> isWhiteSpace (hd s)" "\<not> isWhiteSpace (last s)"
  have 1: "dropWhile isWhiteSpace s = s"
    using a(1,2) by (rule dropWhile_hd_id)
  have "hd (rev s) = last s" using a(1) by (simp add: hd_rev)
  then have 2: "dropWhile isWhiteSpace (rev s) = rev s"
    using a(1,3) by (intro dropWhile_hd_id) simp_all
  show ?thesis by (simp add: trim_def 1 2)
qed

lemma digits_hd: "ds \<noteq> [] \<Longrightarrow> list_all isDigit ds \<Longrightarrow> isDigit (hd ds)"
  by (cases ds) simp_all

lemma digits_last: "ds \<noteq> [] \<Longrightarrow> list_all isDigit ds \<Longrightarrow> isDigit (last ds)"
  by (simp add: list_all_iff)

lemma digits_not_Infinity: "list_all isDigit ds \<Longrightarrow> ds \<noteq> js ''Infinity''"
  by (auto simp: js_def isDigit_def)

lemma unsignedDecimal_digits:
  assumes "ds \<noteq> []" "list_all isDigit ds" "digitsValue ds \<le> 2 ^ 53"
  shows "unsignedDecimal ds = Num (digitsValue ds)"
proof -
  have t: "takeWhile isDigit ds = ds" and d: "dropWhile isDigit ds = []"
    using assms(2) by (simp_all add: list_all_iff)
  have "scaled (digitsValue ds) 0 = Num (digitsValue ds)"
    using assms(3) digitsValue_nonneg [of ds] by (simp add: scaled_def safeInt_def)
  then show ?thesis
    using assms(1) digits_not_Infinity [OF assms(2)]
    by (simp add: unsignedDecimal_def t d exponentPart_def)
qed

lemma Number_digits:
  assumes "ds \<noteq> []" "list_all isDigit ds" "digitsValue ds \<le> 2 ^ 53"
  shows "Number ds = Num (digitsValue ds)"
proof -
  from assms obtain c r where ds: "ds = c # r" by (cases ds) auto
  have c: "isDigit c" using assms(2) ds by simp
  have r: "r \<noteq> [] \<Longrightarrow> isDigit (hd r)" using assms(2) ds by (cases r) simp_all
  have "trim ds = ds"
    using assms(1,2) by (intro trim_id digit_not_white digits_hd digits_last)
  moreover have "c \<noteq> 43" "c \<noteq> 45" using c by (auto simp: isDigit_def)
  moreover have "r \<noteq> [] \<Longrightarrow> hd r \<noteq> 120 \<and> hd r \<noteq> 88 \<and> hd r \<noteq> 111 \<and> hd r \<noteq> 79 \<and> hd r \<noteq> 98 \<and> hd r \<noteq> 66"
    using r by (auto simp: isDigit_def)
  ultimately show ?thesis
    using unsignedDecimal_digits [OF assms] by (auto simp: Number_def ds)
qed

lemma digit_not_dot: "list_all isDigit ds \<Longrightarrow> 46 \<notin> set ds"
  by (auto simp: list_all_iff isDigit_def)

lemma Number_octet: "octetText p \<Longrightarrow> Number p = Num (digitsValue p)"
  unfolding octetText_def by (intro Number_digits) simp_all

lemma quad_trim:
  assumes "octetText p0" "octetText p3"
  shows "trim (join 46 [p0, p1, p2, p3]) = join 46 [p0, p1, p2, p3]"
proof (rule trim_id)
  show "join 46 [p0, p1, p2, p3] \<noteq> []" by simp
  have "hd (join 46 [p0, p1, p2, p3]) = hd p0"
    using assms(1) by (simp add: octetText_def)
  then show "\<not> isWhiteSpace (hd (join 46 [p0, p1, p2, p3]))"
    using assms(1) by (simp add: octetText_def digit_not_white digits_hd)
  have "last (join 46 [p0, p1, p2, p3]) = last p3"
    using assms(2) by (simp add: octetText_def)
  then show "\<not> isWhiteSpace (last (join 46 [p0, p1, p2, p3]))"
    using assms(2) by (simp add: octetText_def digit_not_white digits_last)
qed

lemma quad_split:
  assumes "octetText p0" "octetText p1" "octetText p2" "octetText p3"
  shows "split_sep 46 (join 46 [p0, p1, p2, p3]) = [p0, p1, p2, p3]"
  using assms by (intro split_sep_join) (auto simp: octetText_def digit_not_dot)

lemma ipToNumber_quad:
  assumes "octetText p0" "octetText p1" "octetText p2" "octetText p3"
  shows "ipToNumber (join 46 [p0, p1, p2, p3]) =
           Inr (Num (digitsValue p0 * 256 ^ 3 + digitsValue p1 * 256 ^ 2 +
                     digitsValue p2 * 256 + digitsValue p3))"
proof -
  have b: "0 \<le> digitsValue p0" "0 \<le> digitsValue p1" "0 \<le> digitsValue p2" "0 \<le> digitsValue p3"
    by (rule digitsValue_nonneg)+
  have u: "digitsValue p0 \<le> 255" "digitsValue p1 \<le> 255" "digitsValue p2 \<le> 255"
    "digitsValue p3 \<le> 255"
    using assms by (simp_all add: octetText_def)
  have parts: "map Number (split_sep 46 (trim (join 46 [p0, p1, p2, p3]))) =
      [Num (digitsValue p0), Num (digitsValue p1), Num (digitsValue p2), Num (digitsValue p3)]"
    using assms by (simp only: quad_trim quad_split list.map Number_octet)
  show ?thesis
    unfolding ipToNumber_def parts Let_def
    using b u by (simp add: jsadd_def jstimes_def safeInt_def)
qed

lemma octetText_ToString: "0 \<le> k \<Longrightarrow> k \<le> 255 \<Longrightarrow> octetText (ToString k)"
  by (simp add: octetText_def ToString_def natDigits_nonempty natDigits_digits
      digitsValue_natDigits)

lemma digitsValue_ToString: "0 \<le> k \<Longrightarrow> digitsValue (ToString k) = k"
  by (simp add: ToString_def digitsValue_natDigits)

lemma numberToIp_quad:
  assumes "0 \<le> n" "n < 2 ^ 32"
  shows "numberToIp n =
    join 46 [ToString (n div 256 ^ 3), ToString (n div 256 ^ 2 mod 256),
             ToString (n div 256 mod 256), ToString (n mod 256)]"
proof -
  have "n div 256 ^ 3 < 256" using assms by simp
  moreover have "0 \<le> n div 256 ^ 3" using assms by simp
  ultimately have "(n div 256 ^ 3) mod 256 = n div 256 ^ 3" by simp
  moreover have "0 \<le> n div 256 ^ 2" "0 \<le> n div 256" using assms by simp_all
  ultimately show ?thesis
    using assms(1) by (simp add: numberToIp_def jsrem_def Let_def)
qed

lemma octets_sum:
  fixes n :: int
  shows "n div 256 ^ 3 * 256 ^ 3 + n div 256 ^ 2 mod 256 * 256 ^ 2 + n div 256 mod 256 * 256 + n mod 256 = n"
proof -
  define m1 where "m1 = n div 256"
  define m2 where "m2 = m1 div 256"
  define m3 where "m3 = m2 div 256"
  have d2: "n div 256 ^ 2 = m2"
    unfolding m2_def m1_def by (simp add: zdiv_zmult2_eq [symmetric])
  have d3: "n div 256 ^ 3 = m3"
    unfolding m3_def m2_def m1_def by (simp add: zdiv_zmult2_eq [symmetric])
  have e1: "n = m1 * 256 + n mod 256" unfolding m1_def by simp
  have e2: "m1 = m2 * 256 + m1 mod 256" unfolding m2_def by simp
  have e3: "m2 = m3 * 256 + m2 mod 256" unfolding m3_def by simp
  have "m3 * 256 ^ 3 + m2 mod 256 * 256 ^ 2 + m1 mod 256 * 256 + n mod 256 =
        ((m3 * 256 + m2 mod 256) * 256 + m1 mod 256) * 256 + n mod 256"
    by (simp add: algebra_simps)
  also have "\<dots> = n" using e1 e2 e3 by simp
  finally show ?thesis unfolding d2 d3 m1_def [symmetric] .
qed

lemma ipToNumber_numberToIp:
  assumes "0 \<le> n" "n < 2 ^ 32"
  shows "ipToNumber (numberToIp n) = Inr (Num n)"
proof -
  have o: "octetText (ToString (n div 256 ^ 3))" "octetText (ToString (n div 256 ^ 2 mod 256))"
    "octetText (ToString (n div 256 mod 256))" "octetText (ToString (n mod 256))"
    using assms by (auto intro!: octetText_ToString)
  have v: "digitsValue (ToString (n div 256 ^ 3)) = n div 256 ^ 3"
    "digitsValue (ToString (n div 256 ^ 2 mod 256)) = n div 256 ^ 2 mod 256"
    "digitsValue (ToString (n div 256 mod 256)) = n div 256 mod 256"
    "digitsValue (ToString (n mod 256)) = n mod 256"
    using assms by (auto intro!: digitsValue_ToString)
  show ?thesis
    unfolding numberToIp_quad [OF assms] ipToNumber_quad [OF o] v
    using octets_sum [of n] by simp
qed

lemma wellFormed_quad:
  assumes "wellFormedAddress a"
  obtains p0 p1 p2 p3 where "a = join 46 [p0, p1, p2, p3]"
    "octetText p0" "octetText p1" "octetText p2" "octetText p3"
    "split_sep 46 a = [p0, p1, p2, p3]"
proof -
  from assms have l: "length (split_sep 46 a) = 4" and o: "list_all octetText (split_sep 46 a)"
    by (simp_all add: wellFormedAddress_def)
  from l obtain p0 p1 p2 p3 where s: "split_sep 46 a = [p0, p1, p2, p3]"
    by (auto simp: length_Suc_conv numeral_eq_Suc)
  have "a = join 46 [p0, p1, p2, p3]"
    using join_split_sep [of 46 a] s by simp
  with o s that show ?thesis by simp
qed

lemma octet_bounds: "octetText p \<Longrightarrow> 0 \<le> digitsValue p \<and> digitsValue p \<le> 255"
  by (simp add: octetText_def digitsValue_nonneg)

lemma wellFormed_value:
  assumes "wellFormedAddress a"
  shows "\<exists>v. ipToNumber a = Inr (Num v) \<and> 0 \<le> v \<and> v < 2 ^ 32"
proof -
  from assms obtain p0 p1 p2 p3 where a: "a = join 46 [p0, p1, p2, p3]"
    and o: "octetText p0" "octetText p1" "octetText p2" "octetText p3"
    by (rule wellFormed_quad)
  from o have "0 \<le> digitsValue p0 \<and> digitsValue p0 \<le> 255" "0 \<le> digitsValue p1 \<and> digitsValue p1 \<le> 255"
    "0 \<le> digitsValue p2 \<and> digitsValue p2 \<le> 255" "0 \<le> digitsValue p3 \<and> digitsValue p3 \<le> 255"
    by (simp_all add: octet_bounds)
  then show ?thesis
    unfolding a ipToNumber_quad [OF o] by simp
qed

lemma wellFormed_numberToIp:
  assumes "0 \<le> n" "n < 2 ^ 32"
  shows "wellFormedAddress (numberToIp n)"
proof -
  have o: "octetText (ToString (n div 256 ^ 3))" "octetText (ToString (n div 256 ^ 2 mod 256))"
    "octetText (ToString (n div 256 mod 256))" "octetText (ToString (n mod 256))"
    using assms by (auto intro!: octetText_ToString)
  show ?thesis
    unfolding numberToIp_quad [OF assms] wellFormedAddress_def quad_split [OF o]
    using o by simp
qed

lemma canonical_numberToIp:
  assumes "0 \<le> n" "n < 2 ^ 32"
  shows "canonicalAddress (numberToIp n)"
proof -
  have o: "octetText (ToString (n div 256 ^ 3))" "octetText (ToString (n div 256 ^ 2 mod 256))"
    "octetText (ToString (n div 256 mod 256))" "octetText (ToString (n mod 256))"
    using assms by (auto intro!: octetText_ToString)
  have v: "digitsValue (ToString (n div 256 ^ 3)) = n div 256 ^ 3"
    "digitsValue (ToString (n div 256 ^ 2 mod 256)) = n div 256 ^ 2 mod 256"
    "digitsValue (ToString (n div 256 mod 256)) = n div 256 mod 256"
    "digitsValue (ToString (n mod 256)) = n mod 256"
    using assms by (auto intro!: digitsValue_ToString)
  have "list_all (\<lambda>part. part = ToString (digitsValue part)) (split_sep 46 (numberToIp n))"
    unfolding numberToIp_quad [OF assms] quad_split [OF o] by (simp only: list.pred_inject v simp_thms)
  then show ?thesis
    using wellFormed_numberToIp [OF assms] by (simp add: canonicalAddress_def)
qed

lemma divmod_256:
  fixes q r :: int
  assumes "0 \<le> r" "r \<le> 255"
  shows "(q * 256 + r) div 256 = q" "(q * 256 + r) mod 256 = r"
proof -
  have e: "q * 256 + r = 256 * q + r" by simp
  have l: "r < 256" using assms(2) by simp
  show "(q * 256 + r) div 256 = q" by (rule int_div_pos_eq [OF e assms(1) l])
  show "(q * 256 + r) mod 256 = r" by (rule int_mod_pos_eq [OF e assms(1) l])
qed

lemma octets_of_sum:
  fixes d0 d1 d2 d3 :: int
  assumes "0 \<le> d1 \<and> d1 \<le> 255" "0 \<le> d2 \<and> d2 \<le> 255" "0 \<le> d3 \<and> d3 \<le> 255"
  defines "v \<equiv> d0 * 256 ^ 3 + d1 * 256 ^ 2 + d2 * 256 + d3"
  shows "v div 256 ^ 3 = d0" "v div 256 ^ 2 mod 256 = d1" "v div 256 mod 256 = d2" "v mod 256 = d3"
proof -
  have v1: "v = ((d0 * 256 + d1) * 256 + d2) * 256 + d3" by (simp add: v_def)
  have m0: "v mod 256 = d3" and q1: "v div 256 = (d0 * 256 + d1) * 256 + d2"
    unfolding v1 using assms(3) by (simp_all only: divmod_256)
  have m1: "v div 256 mod 256 = d2" and q2: "v div 256 div 256 = d0 * 256 + d1"
    unfolding q1 using assms(2) by (simp_all only: divmod_256)
  have m2: "v div 256 div 256 mod 256 = d1" and q3: "v div 256 div 256 div 256 = d0"
    unfolding q2 using assms(1) by (simp_all only: divmod_256)
  have e2: "v div 256 ^ 2 = v div 256 div 256" by (simp add: zdiv_zmult2_eq [symmetric])
  have e3: "v div 256 ^ 3 = v div 256 div 256 div 256" by (simp add: zdiv_zmult2_eq [symmetric])
  show "v div 256 ^ 3 = d0" "v div 256 ^ 2 mod 256 = d1" "v div 256 mod 256 = d2" "v mod 256 = d3"
    by (simp_all only: e2 e3 m0 m1 m2 q3)
qed

lemma canonical_roundtrip:
  assumes "canonicalAddress a" "ipToNumber a = Inr (Num v)"
  shows "numberToIp v = a"
proof -
  from assms(1) have w: "wellFormedAddress a"
    and c: "list_all (\<lambda>part. part = ToString (digitsValue part)) (split_sep 46 a)"
    by (simp_all add: canonicalAddress_def)
  from w obtain p0 p1 p2 p3 where a: "a = join 46 [p0, p1, p2, p3]"
    and o: "octetText p0" "octetText p1" "octetText p2" "octetText p3"
    and s: "split_sep 46 a = [p0, p1, p2, p3]"
    by (rule wellFormed_quad)
  from c s have t: "ToString (digitsValue p0) = p0" "ToString (digitsValue p1) = p1"
    "ToString (digitsValue p2) = p2" "ToString (digitsValue p3) = p3" by simp_all
  have b: "0 \<le> digitsValue p0 \<and> digitsValue p0 \<le> 255" "0 \<le> digitsValue p1 \<and> digitsValue p1 \<le> 255"
    "0 \<le> digitsValue p2 \<and> digitsValue p2 \<le> 255" "0 \<le> digitsValue p3 \<and> digitsValue p3 \<le> 255"
    using o by (simp_all add: octet_bounds)
  have v: "v = digitsValue p0 * 256 ^ 3 + digitsValue p1 * 256 ^ 2 + digitsValue p2 * 256 + digitsValue p3"
    using assms(2) unfolding a ipToNumber_quad [OF o] by simp
  have r: "0 \<le> v" "v < 2 ^ 32" using b unfolding v by simp_all
  have d: "v div 256 ^ 3 = digitsValue p0" "v div 256 ^ 2 mod 256 = digitsValue p1"
    "v div 256 mod 256 = digitsValue p2" "v mod 256 = digitsValue p3"
    unfolding v using b by (simp_all only: octets_of_sum)
  show ?thesis
    unfolding numberToIp_quad [OF r] d t a ..
qed

lemmas addr_eval = ipToNumber_def Number_def unsignedDecimal_def exponentPart_def scaled_def
  safeInt_def jsadd_def jstimes_def negate_def radixLiteral_def hexDigitValue_def trim_def
  isWhiteSpace_def isDigit_def digitsValue_def js_def numberToIp_def jsrem_def ToString_def
  natDigits.simps buildTargetList_def MAX_TARGETS_def wellFormedAddress_def octetText_def
  canonicalAddress_def Let_def

text \<open>
  Claim C2: range expansion should fail with the invalid-address error when a
  component lies outside [0,255]. \<open>ipToNumber\<close> only checks that there are four
  components and that none is NaN: \<open>256.0.0.1\<close> and \<open>1.2.3.999\<close> are accepted, and the
  range from \<open>256.0.0.1\<close> to \<open>256.0.0.2\<close> expands to \<open>0.0.0.1\<close>, \<open>0.0.0.2\<close>.
\<close>

theorem ipToNumber_accepts_out_of_range:
  "ipToNumber (js ''256.0.0.1'') = Inr (Num 4294967297) \<and>
   ipToNumber (js ''1.2.3.999'') = Inr (Num 16910055) \<and>
   buildTargetList (js ''256.0.0.1'') (js ''256.0.0.2'') =
     Some (Inr [js ''0.0.0.1'', js ''0.0.0.2''])"
  by (simp add: addr_eval upt_rec)

theorem ipToNumber_accepts_out_of_range_witness:
  "ipToNumber (js ''256.0.0.1'') \<noteq> Inl InvalidIP \<and>
   buildTargetList (js ''256.0.0.1'') (js ''256.0.0.2'') \<noteq> Some (Inl InvalidIP)"
  using ipToNumber_accepts_out_of_range by simp

text \<open>The only check of \<open>ipToNumber\<close>.\<close>

lemma ipToNumber_fails_iff:
  "ipToNumber a = Inl InvalidIP \<longleftrightarrow>
     length (split_sep 46 (trim a)) \<noteq> 4 \<or>
     list_ex (\<lambda>part. Number part = NaN) (split_sep 46 (trim a))"
proof -
  have "list_ex (\<lambda>part. part = NaN) (map Number xs) = list_ex (\<lambda>part. Number part = NaN) xs"
    for xs by (induction xs) simp_all
  then show ?thesis by (simp add: ipToNumber_def Let_def)
qed

text \<open>
  Claim C9: for every integer \<open>n\<close> with \<open>0 \<le> n < 2^32\<close>, parsing the text of \<open>n\<close> gives
  \<open>n\<close> again, and the text has exactly four dot-separated components, each a
  non-empty decimal numeral of value within [0,255].
\<close>

theorem numberToIp_roundtrip:
  assumes "0 \<le> n" "n < 2 ^ 32"
  shows "ipToNumber (numberToIp n) = Inr (Num n) \<and>
         length (split_sep 46 (numberToIp n)) = 4 \<and>
         list_all (\<lambda>part. part \<noteq> [] \<and> list_all isDigit part \<and>
                     0 \<le> digitsValue part \<and> digitsValue part \<le> 255)
           (split_sep 46 (numberToIp n))"
proof -
  have w: "wellFormedAddress (numberToIp n)"
    using assms by (rule wellFormed_numberToIp)
  then have "list_all octetText (split_sep 46 (numberToIp n))"
    by (simp add: wellFormedAddress_def)
  then have "list_all (\<lambda>part. part \<noteq> [] \<and> list_all isDigit part \<and>
                     0 \<le> digitsValue part \<and> digitsValue part \<le> 255)
           (split_sep 46 (numberToIp n))"
    by (simp add: list_all_iff octetText_def digitsValue_nonneg)
  with w ipToNumber_numberToIp [OF assms] show ?thesis
    by (simp add: wellFormedAddress_def)
qed

theorem numberToIp_roundtrip_witness:
  "(0::int) \<le> 3232235521 \<and> (3232235521::int) < 2 ^ 32 \<and>
   numberToIp 3232235521 = js ''192.168.0.1'' \<and>
   ipToNumber (numberToIp 3232235521) = Inr (Num 3232235521) \<and>
   length (split_sep 46 (numberToIp 3232235521)) = 4"
proof -
  have h: "(0::int) \<le> 3232235521" "(3232235521::int) < 2 ^ 32" by simp_all
  have "numberToIp 3232235521 = js ''192.168.0.1''" by (simp add: addr_eval)
  with h numberToIp_roundtrip [OF h] show ?thesis by simp
qed

text \<open>
  Claim C4: for well-formed boundaries of values \<open>sv \<le> ev\<close> with at most
  \<open>MAX_TARGETS\<close> addresses between them, range expansion returns \<open>ev - sv + 1\<close>
  addresses; the \<open>i\<close>-th is the canonical text of \<open>sv + i\<close> and parses to \<open>sv + i\<close>, so
  the values ascend strictly, one by one; the first is the text of \<open>sv\<close> and the
  last the text of \<open>ev\<close>, which are the boundaries themselves when these are written
  canonically.
\<close>

theorem buildTargetList_valid:
  assumes "wellFormedAddress start" "wellFormedAddress end'"
    and "ipToNumber start = Inr (Num sv)" "ipToNumber end' = Inr (Num ev)"
    and "sv \<le> ev" "ev - sv + 1 \<le> MAX_TARGETS"
  shows "\<exists>ts. buildTargetList start end' = Some (Inr ts) \<and>
           length ts = nat (ev - sv + 1) \<and>
           (\<forall>i < length ts. ts ! i = numberToIp (sv + int i) \<and>
                             ipToNumber (ts ! i) = Inr (Num (sv + int i)) \<and>
                             canonicalAddress (ts ! i)) \<and>
           hd ts = numberToIp sv \<and> last ts = numberToIp ev \<and>
           (canonicalAddress start \<longrightarrow> hd ts = start) \<and>
           (canonicalAddress end' \<longrightarrow> last ts = end')"
proof -
  define ts where "ts = map (\<lambda>index. numberToIp (sv + int index)) [0..<nat (ev - sv + 1)]"
  from wellFormed_value [OF assms(1)] assms(3) have s: "0 \<le> sv" "sv < 2 ^ 32" by auto
  from wellFormed_value [OF assms(2)] assms(4) have e: "0 \<le> ev" "ev < 2 ^ 32" by auto
  have b: "buildTargetList start end' = Some (Inr ts)"
    using assms(3-6) by (simp add: buildTargetList_def ts_def)
  have l: "length ts = nat (ev - sv + 1)" by (simp add: ts_def)
  have n: "ts \<noteq> []" using assms(5) by (simp add: ts_def)
  have i: "ts ! i = numberToIp (sv + int i) \<and> ipToNumber (ts ! i) = Inr (Num (sv + int i)) \<and>
           canonicalAddress (ts ! i)" if "i < length ts" for i
  proof -
    from that l have r: "0 \<le> sv + int i" "sv + int i < 2 ^ 32" using s e by auto
    from that have "ts ! i = numberToIp (sv + int i)" by (simp add: ts_def)
    with ipToNumber_numberToIp [OF r] canonical_numberToIp [OF r] show ?thesis by simp
  qed
  have h: "hd ts = numberToIp sv"
    using n i [of 0] by (simp add: hd_conv_nth)
  have "sv + int (length ts - 1) = ev" using l assms(5) by simp
  then have t: "last ts = numberToIp ev"
    using n i [of "length ts - 1"] by (simp add: last_conv_nth)
  have "hd ts = start" if "canonicalAddress start"
    using canonical_roundtrip [OF that assms(3)] h by simp
  moreover have "last ts = end'" if "canonicalAddress end'"
    using canonical_roundtrip [OF that assms(4)] t by simp
  ultimately show ?thesis using b l i h t by blast
qed

theorem buildTargetList_valid_witness:
  "wellFormedAddress (js ''10.0.0.254'') \<and> wellFormedAddress (js ''10.0.1.1'') \<and>
   ipToNumber (js ''10.0.0.254'') = Inr (Num 167772414) \<and>
   ipToNumber (js ''10.0.1.1'') = Inr (Num 167772417) \<and>
   (\<exists>ts. buildTargetList (js ''10.0.0.254'') (js ''10.0.1.1'') = Some (Inr ts) \<and>
         length ts = 4 \<and> hd ts = js ''10.0.0.254'' \<and> last ts = js ''10.0.1.1'')"
proof -
  have w: "wellFormedAddress (js ''10.0.0.254'')" "wellFormedAddress (js ''10.0.1.1'')"
    by (simp_all add: addr_eval)
  have c: "canonicalAddress (js ''10.0.0.254'')" "canonicalAddress (js ''10.0.1.1'')"
    by (simp_all add: addr_eval)
  have v: "ipToNumber (js ''10.0.0.254'') = Inr (Num 167772414)"
    "ipToNumber (js ''10.0.1.1'') = Inr (Num 167772417)"
    by (simp_all add: addr_eval)
  have o: "(167772414::int) \<le> 167772417" "(167772417::int) - 167772414 + 1 \<le> MAX_TARGETS"
    by (simp_all add: MAX_TARGETS_def)
  from buildTargetList_valid [OF w v o] c w v show ?thesis by auto
qed

section \<open>Properties of a probe\<close>

lemma mapErrorToStatus_not_Open: "mapErrorToStatus e \<noteq> Inr Open"
  by (cases e) (auto simp: mapErrorToStatus_def split: option.splits)

lemma mapErrorToStatus_abort:
  "mapErrorToStatus (DOMException (js ''AbortError'') m) = Inr Timeout"
  by (simp add: mapErrorToStatus_def)

lemma mapErrorToStatus_throws:
  "mapErrorToStatus e = Inl thrown \<longleftrightarrow> e = TypeError None \<and> thrown = toLowerCaseFailure"
  by (cases e) (auto simp: mapErrorToStatus_def split: option.splits)

lemma scanPort_settled_throws:
  "scanPort_settled a p outcome = Inl thrown \<longleftrightarrow>
     outcome = Rejected (TypeError None) \<and> thrown = toLowerCaseFailure"
proof (cases outcome)
  case (Fulfilled l)
  then show ?thesis by (simp add: scanPort_settled_def)
next
  case (Rejected e)
  show ?thesis
  proof (cases "mapErrorToStatus e")
    case (Inl t)
    with Rejected mapErrorToStatus_throws [of e t] show ?thesis
      by (auto simp: scanPort_settled_def)
  next
    case (Inr st)
    with Rejected mapErrorToStatus_throws [of e thrown] show ?thesis
      by (auto simp: scanPort_settled_def)
  qed
qed

lemma scanPort_settled_result:
  assumes "scanPort_settled a p outcome = Inr r"
  shows "port r = p \<and> protocol r = protocolForPort p \<and>
         (latency r \<noteq> None \<longleftrightarrow> status r = Open) \<and>
         (errorMessage r \<noteq> None \<longleftrightarrow> status r = Error) \<and>
         (status r = Open \<longleftrightarrow> (\<exists>l. outcome = Fulfilled l)) \<and>
         (\<forall>e. outcome = Rejected e \<longrightarrow> mapErrorToStatus e = Inr (status r))"
proof (cases outcome)
  case (Fulfilled l)
  with assms show ?thesis by (auto simp: scanPort_settled_def)
next
  case (Rejected e)
  with assms obtain st where st: "mapErrorToStatus e = Inr st"
    and r: "r = \<lparr>port = p, protocol = protocolForPort p, status = st, latency = None,
                errorMessage = (if st = Error
                  then Some (case messageOf e of Some m \<Rightarrow> m | None \<Rightarrow> js ''Erro desconhecido'')
                  else None)\<rparr>"
    by (auto simp: scanPort_settled_def split: sum.splits)
  from st mapErrorToStatus_not_Open [of e] have "st \<noteq> Open" by auto
  with Rejected st r show ?thesis by simp
qed

lemma scanPort_settled_aborted:
  "scanPort_settled a p (abortedFetch src msg) =
     Inr \<lparr>port = p, protocol = protocolForPort p, status = Timeout, latency = None,
          errorMessage = None\<rparr>"
  by (simp add: scanPort_settled_def abortedFetch_def mapErrorToStatus_abort)

lemma timerDelay_bound: "timerDelay timeoutMs < 2 ^ 31"
proof -
  have "(timeoutMs + 2 ^ 31) mod 2 ^ 32 < 2 ^ 32" by simp
  then show ?thesis by (auto simp: timerDelay_def Let_def)
qed

lemma timerDelay_id: "0 \<le> timeoutMs \<Longrightarrow> timeoutMs < 2 ^ 31 \<Longrightarrow> int (timerDelay timeoutMs) = timeoutMs"
  by (simp add: timerDelay_def Let_def)

lemma firstAbort_bound: "fst (firstAbort timeoutMs cancelAt) \<le> timerDelay timeoutMs"
  by (cases cancelAt) (simp_all add: firstAbort_def)

lemma fetchSettles_aborting:
  "\<exists>t outcome. fetchSettles (Some (d, src)) net = Some (t, outcome) \<and> t \<le> d \<and>
     (outcome = abortedFetch src abortMessage \<or>
      (\<exists>ev. net = Some (t, ev) \<and> outcome = networkOutcome t ev))"
  by (cases net) (auto simp: fetchSettles_def)

lemma fetchSettles_never: "fetchSettles None None = None"
  by (simp add: fetchSettles_def)

lemma scanPort_cases:
  "scanPort timeoutMs cancelAt net a p =
     (case net of
        None \<Rightarrow>
          Some (fst (firstAbort timeoutMs cancelAt),
                Inr \<lparr>port = p, protocol = protocolForPort p, status = Timeout, latency = None,
                     errorMessage = None\<rparr>)
      | Some (tn, ev) \<Rightarrow>
          if tn \<le> fst (firstAbort timeoutMs cancelAt)
          then Some (tn, scanPort_settled a p (networkOutcome tn ev))
          else Some (fst (firstAbort timeoutMs cancelAt),
                     Inr \<lparr>port = p, protocol = protocolForPort p, status = Timeout,
                          latency = None, errorMessage = None\<rparr>))"
  by (cases "firstAbort timeoutMs cancelAt")
    (auto simp: scanPort_def fetchSettles_def scanPort_settled_aborted split: option.splits)

lemma networkOutcome_simps:
  "networkOutcome t ev = Rejected e \<longleftrightarrow> ev = Fails e"
  "networkOutcome t ev = Fulfilled l \<longleftrightarrow> ev = Responds \<and> l = int t"
  by (cases ev; auto simp: networkOutcome_def)+

lemma scanPort_total:
  "\<exists>t r. scanPort timeoutMs cancelAt net a p = Some (t, r) \<and>
     t \<le> timerDelay timeoutMs \<and>
     ((\<exists>thrown. r = Inl thrown) \<longleftrightarrow> net = Some (t, Fails (TypeError None))) \<and>
     (\<forall>thrown. r = Inl thrown \<longrightarrow> thrown = toLowerCaseFailure) \<and>
     (\<forall>pr. r = Inr pr \<longrightarrow>
        port pr = p \<and> protocol pr = protocolForPort p \<and>
        (latency pr \<noteq> None \<longleftrightarrow> status pr = Open) \<and>
        (errorMessage pr \<noteq> None \<longleftrightarrow> status pr = Error) \<and>
        (status pr = Open \<longleftrightarrow> net = Some (t, Responds)) \<and>
        (\<forall>e. net = Some (t, Fails e) \<longrightarrow> mapErrorToStatus e = Inr (status pr)) \<and>
        ((\<forall>ev. net \<noteq> Some (t, ev)) \<longrightarrow> status pr = Timeout))"
proof -
  let ?d = "fst (firstAbort timeoutMs cancelAt)"
  let ?to = "\<lparr>port = p, protocol = protocolForPort p, status = Timeout, latency = None,
               errorMessage = None\<rparr>"
  have d: "?d \<le> timerDelay timeoutMs" by (rule firstAbort_bound)
  show ?thesis
  proof (cases net)
    case None
    then have "scanPort timeoutMs cancelAt net a p = Some (?d, Inr ?to)"
      by (simp add: scanPort_cases)
    with d None show ?thesis by simp
  next
    case (Some x)
    then obtain tn ev where net: "net = Some (tn, ev)" by (cases x) auto
    show ?thesis
    proof (cases "tn \<le> ?d")
      case False
      with net have "scanPort timeoutMs cancelAt net a p = Some (?d, Inr ?to)"
        by (simp add: scanPort_cases)
      with d net False show ?thesis by auto
    next
      case True
      with net have s: "scanPort timeoutMs cancelAt net a p =
          Some (tn, scanPort_settled a p (networkOutcome tn ev))"
        by (simp add: scanPort_cases)
      have t: "tn \<le> timerDelay timeoutMs" using True d by simp
      show ?thesis
      proof (cases "scanPort_settled a p (networkOutcome tn ev)")
        case (Inl thrown)
        with scanPort_settled_throws [of a p "networkOutcome tn ev" thrown]
        have "ev = Fails (TypeError None)" "thrown = toLowerCaseFailure"
          by (simp_all add: networkOutcome_simps)
        with s t net Inl show ?thesis by simp
      next
        case (Inr pr)
        from scanPort_settled_throws [of a p "networkOutcome tn ev" toLowerCaseFailure] Inr
        have n: "ev \<noteq> Fails (TypeError None)" by (auto simp: networkOutcome_simps)
        from scanPort_settled_result [OF Inr] s t net Inr n show ?thesis
          by (auto simp: networkOutcome_simps)
      qed
    qed
  qed
qed

lemmas probe_eval = scanPort_def scanPort_settled_def mapErrorToStatus_def messageOf_def
  toLowerCase_def js_def protocolForPort_def fetchSettles_def firstAbort_def timerDelay_def
  networkOutcome_def abortedFetch_def Let_def



text \<open>
  On every other settling of the \<open>fetch\<close> the probe does what claim C6 says. For
  every address, port, timeout, time of cancellation and behaviour of the network
  (\<open>net\<close>, which may never answer), \<open>scanPort\<close> settles, at a time that is at most the
  delay of its timer; it rejects exactly when the network fails at that time with a
  \<open>TypeError\<close> without a message; otherwise it resolves with a \<open>PortResult\<close> for the
  port, whose latency is present exactly when the status is \<open>Open\<close> and whose error
  message is present exactly when the status is \<open>Error\<close>; the status is \<open>Open\<close> exactly
  when the network responded, it is what \<open>mapErrorToStatus\<close> gives when the network
  failed, and it is \<open>Timeout\<close> when the abort came first. The delay of the timer is
  below \<open>2 ^ 31\<close> ms and is \<open>timeoutMs\<close> itself for \<open>0 \<le> timeoutMs < 2 ^ 31\<close>. It is
  the timer that makes the probe settle: a \<open>fetch\<close> with no abort and no answer never
  does.
\<close>

lemma scanPort_settles:
  "(\<exists>t r. scanPort timeoutMs cancelAt net a p = Some (t, r) \<and>
      t \<le> timerDelay timeoutMs \<and>
      ((\<exists>thrown. r = Inl thrown) \<longleftrightarrow> net = Some (t, Fails (TypeError None))) \<and>
      (\<forall>thrown. r = Inl thrown \<longrightarrow> thrown = toLowerCaseFailure) \<and>
      (\<forall>pr. r = Inr pr \<longrightarrow>
         port pr = p \<and> protocol pr = protocolForPort p \<and>
         (latency pr \<noteq> None \<longleftrightarrow> status pr = Open) \<and>
         (errorMessage pr \<noteq> None \<longleftrightarrow> status pr = Error) \<and>
         (status pr = Open \<longleftrightarrow> net = Some (t, Responds)) \<and>
         (\<forall>e. net = Some (t, Fails e) \<longrightarrow> mapErrorToStatus e = Inr (status pr)) \<and>
         ((\<forall>ev. net \<noteq> Some (t, ev)) \<longrightarrow> status pr = Timeout))) \<and>
   timerDelay timeoutMs < 2 ^ 31 \<and>
   (0 \<le> timeoutMs \<and> timeoutMs < 2 ^ 31 \<longrightarrow> int (timerDelay timeoutMs) = timeoutMs) \<and>
   fetchSettles None None = None \<and>
   mapErrorToStatus (DOMException (js ''AbortError'') m) = Inr Timeout \<and>
   (n \<noteq> js ''AbortError'' \<longrightarrow> mapErrorToStatus (DOMException n m) = Inr Error) \<and>
   (str_includes (toLowerCase m) (js ''fetch'') \<longrightarrow>
      mapErrorToStatus (TypeError (Some m)) = Inr Closed) \<and>
   (\<not> str_includes (toLowerCase m) (js ''fetch'') \<longrightarrow>
      mapErrorToStatus (TypeError (Some m)) = Inr Error) \<and>
   mapErrorToStatus (OtherError x) = Inr Error \<and>
   mapErrorToStatus (TypeError None) = Inl toLowerCaseFailure"
proof -
  have c: "mapErrorToStatus (DOMException (js ''AbortError'') m) = Inr Timeout \<and>
   (n \<noteq> js ''AbortError'' \<longrightarrow> mapErrorToStatus (DOMException n m) = Inr Error) \<and>
   (str_includes (toLowerCase m) (js ''fetch'') \<longrightarrow>
      mapErrorToStatus (TypeError (Some m)) = Inr Closed) \<and>
   (\<not> str_includes (toLowerCase m) (js ''fetch'') \<longrightarrow>
      mapErrorToStatus (TypeError (Some m)) = Inr Error) \<and>
   mapErrorToStatus (OtherError x) = Inr Error \<and>
   mapErrorToStatus (TypeError None) = Inl toLowerCaseFailure"
    by (simp add: mapErrorToStatus_def)
  have i: "0 \<le> timeoutMs \<and> timeoutMs < 2 ^ 31 \<longrightarrow> int (timerDelay timeoutMs) = timeoutMs"
    using timerDelay_id [of timeoutMs] by blast
  show ?thesis
    by (intro conjI) (fact scanPort_total timerDelay_bound i fetchSettles_never c [THEN conjunct1]
        c [THEN conjunct2, THEN conjunct1] c [THEN conjunct2, THEN conjunct2, THEN conjunct1]
        c [THEN conjunct2, THEN conjunct2, THEN conjunct2, THEN conjunct1]
        c [THEN conjunct2, THEN conjunct2, THEN conjunct2, THEN conjunct2, THEN conjunct1]
        c [THEN conjunct2, THEN conjunct2, THEN conjunct2, THEN conjunct2, THEN conjunct2])+
qed

text \<open>Some probes.\<close>

lemma scanPort_settles_example:
  "scanPort 2000 None None (js ''10.0.0.1'') 443 =
     Some (2000, Inr \<lparr>port = 443, protocol = https, status = Timeout, latency = None,
                      errorMessage = None\<rparr>) \<and>
   scanPort 2000 (Some 700) None (js ''10.0.0.1'') 443 =
     Some (700, Inr \<lparr>port = 443, protocol = https, status = Timeout, latency = None,
                     errorMessage = None\<rparr>) \<and>
   scanPort 2000 None (Some (35, Responds)) (js ''10.0.0.1'') 80 =
     Some (35, Inr \<lparr>port = 80, protocol = http, status = Open, latency = Some 35,
                    errorMessage = None\<rparr>) \<and>
   scanPort 2000 None (Some (12, Fails (TypeError (Some (js ''Failed to fetch''))))) (js ''10.0.0.1'') 80 =
     Some (12, Inr \<lparr>port = 80, protocol = http, status = Closed, latency = None,
                    errorMessage = None\<rparr>) \<and>
   scanPort 2000 None (Some (12, Fails (TypeError (Some (js ''boom''))))) (js ''10.0.0.1'') 80 =
     Some (12, Inr \<lparr>port = 80, protocol = http, status = Error, latency = None,
                    errorMessage = Some (js ''boom'')\<rparr>) \<and>
   timerDelay 2000 = 2000 \<and> timerDelay (- 5) = 0"
proof -
  have e: "scanPort 2000 None None (js ''10.0.0.1'') 443 =
     Some (2000, Inr \<lparr>port = 443, protocol = https, status = Timeout, latency = None,
                      errorMessage = None\<rparr>)"
   "scanPort 2000 (Some 700) None (js ''10.0.0.1'') 443 =
     Some (700, Inr \<lparr>port = 443, protocol = https, status = Timeout, latency = None,
                     errorMessage = None\<rparr>)"
   "scanPort 2000 None (Some (35, Responds)) (js ''10.0.0.1'') 80 =
     Some (35, Inr \<lparr>port = 80, protocol = http, status = Open, latency = Some 35,
                    errorMessage = None\<rparr>)"
   "scanPort 2000 None (Some (12, Fails (TypeError (Some (js ''Failed to fetch''))))) (js ''10.0.0.1'') 80 =
     Some (12, Inr \<lparr>port = 80, protocol = http, status = Closed, latency = None,
                    errorMessage = None\<rparr>)"
   "scanPort 2000 None (Some (12, Fails (TypeError (Some (js ''boom''))))) (js ''10.0.0.1'') 80 =
     Some (12, Inr \<lparr>port = 80, protocol = http, status = Error, latency = None,
                    errorMessage = Some (js ''boom'')\<rparr>)"
   "timerDelay (- 5) = 0"
    by (simp_all add: probe_eval)
  from scanPort_settles [of 2000 None None "js ''10.0.0.1''" 443 "[]" "[]" None]
  have "int (timerDelay 2000) = 2000" by simp
  then have "timerDelay 2000 = 2000" by linarith
  with e show ?thesis by simp
qed

section \<open>Properties of cancellation\<close>







text \<open>
  The user cannot call \<open>handleCancel\<close> when no scan is running: the button is disabled
  then.
\<close>

lemma cancel_button:
  "cancel (cancel s) = cancel s \<and> (isScanning s \<longrightarrow> cancel s = handleCancel s) \<and>
   (\<not> isScanning s \<longrightarrow> cancel s = s)"
  by (simp add: cancel_def handleCancel_def)

section \<open>Properties of a scan run\<close>

lemma promiseAll_map_Inr: "promiseAll (map Inr rs) = Inr rs"
  by (induction rs) simp_all

lemma promiseAll_Inr_D: "promiseAll xs = Inr rs \<Longrightarrow> xs = map Inr rs"
proof (induction xs arbitrary: rs)
  case Nil
  then show ?case by simp
next
  case (Cons x xs)
  show ?case
  proof (cases x)
    case (Inl e)
    with Cons.prems show ?thesis by simp
  next
    case (Inr r)
    with Cons.prems obtain rs' where "promiseAll xs = Inr rs'" "rs = r # rs'"
      by (auto split: sum.splits)
    with Cons.IH [of rs'] Inr show ?thesis by simp
  qed
qed

lemma promiseAll_Inr: "promiseAll xs = Inr rs \<longleftrightarrow> xs = map Inr rs"
  using promiseAll_Inr_D promiseAll_map_Inr by blast

lemma promiseAll_Inl: "promiseAll xs = Inl e \<Longrightarrow> Inl e \<in> set xs"
  by (induction xs rule: promiseAll.induct) (auto split: sum.splits)

lemma scanHost_Inr:
  assumes "scanHost env a ps = Inr h"
  shows "ip h = a \<and> length (ports h) = length ps \<and>
         (\<forall>i < length ps. scanPort_settled a (ps ! i) (env i) = Inr (ports h ! i)) \<and>
         respondedInvariant h"
proof -
  from assms obtain rs where
    p: "promiseAll (map (\<lambda>i. scanPort_settled a (ps ! i) (env i)) [0..<length ps]) = Inr rs"
    and h: "h = \<lparr>ip = a, ports = rs,
                 responded = (list_ex (\<lambda>item. status item = Open) rs \<or>
                              list_all (\<lambda>item. status item = Timeout) rs)\<rparr>"
    by (auto simp: scanHost_def split: sum.splits)
  from p have m: "map (\<lambda>i. scanPort_settled a (ps ! i) (env i)) [0..<length ps] = map Inr rs"
    by (simp add: promiseAll_Inr)
  then have l: "length rs = length ps"
    using length_map [of "\<lambda>i. scanPort_settled a (ps ! i) (env i)" "[0..<length ps]"]
    by simp
  have "scanPort_settled a (ps ! i) (env i) = Inr (rs ! i)" if "i < length ps" for i
    using arg_cong [OF m, of "\<lambda>xs. xs ! i"] that l by simp
  with h l show ?thesis by (simp add: respondedInvariant_def)
qed

lemma scanHost_Inl:
  assumes "scanHost env a ps = Inl e"
  shows "e = toLowerCaseFailure \<and> (\<exists>i < length ps. env i = Rejected (TypeError None))"
proof -
  from assms have
    "promiseAll (map (\<lambda>i. scanPort_settled a (ps ! i) (env i)) [0..<length ps]) = Inl e"
    by (auto simp: scanHost_def split: sum.splits)
  then have "Inl e \<in> set (map (\<lambda>i. scanPort_settled a (ps ! i) (env i)) [0..<length ps])"
    by (rule promiseAll_Inl)
  then obtain i where "i < length ps" "scanPort_settled a (ps ! i) (env i) = Inl e" by auto
  then show ?thesis using scanPort_settled_throws [of a "ps ! i" "env i" e] by auto
qed

lemma scanHost_resolves:
  assumes "\<forall>i < length ps. env i \<noteq> Rejected (TypeError None)"
  shows "\<exists>h. scanHost env a ps = Inr h"
proof (cases "scanHost env a ps")
  case (Inl e)
  with scanHost_Inl [OF Inl] assms show ?thesis by auto
next
  case (Inr h)
  then show ?thesis by blast
qed

lemma scanHost_rejects:
  "ps \<noteq> [] \<Longrightarrow> scanHost (\<lambda>i. Rejected (TypeError None)) a ps = Inl toLowerCaseFailure"
proof -
  assume n: "ps \<noteq> []"
  have s: "scanPort_settled a p (Rejected (TypeError None)) = Inl toLowerCaseFailure" for p
    by (simp add: scanPort_settled_throws)
  from n have "[0..<length ps] = 0 # [1..<length ps]" by (simp add: upt_conv_Cons)
  then show ?thesis by (simp add: scanHost_def s)
qed

lemma respondedInvariant_failedHost: "ps \<noteq> [] \<Longrightarrow> respondedInvariant (failedHost a ps e)"
  by (cases ps) (simp_all add: respondedInvariant_def failedHost_def list_ex_iff)

lemma ip_failedHost: "ip (failedHost a ps e) = a"
  by (simp add: failedHost_def)

lemma awaited_take: "i < length ws \<Longrightarrow> ws ! i = Looping \<Longrightarrow>
  mset (awaited (ws[i := Awaiting a])) = add_mset a (mset (awaited ws))"
proof (induction ws arbitrary: i)
  case Nil
  then show ?case by simp
next
  case (Cons w ws)
  show ?case
  proof (cases i)
    case 0
    with Cons.prems show ?thesis by simp
  next
    case (Suc j)
    with Cons show ?thesis by (cases w) simp_all
  qed
qed

lemma awaited_give: "i < length ws \<Longrightarrow> ws ! i = Awaiting a \<Longrightarrow>
  mset (awaited ws) = add_mset a (mset (awaited (ws[i := Looping])))"
proof (induction ws arbitrary: i)
  case Nil
  then show ?case by simp
next
  case (Cons w ws)
  show ?case
  proof (cases i)
    case 0
    with Cons.prems show ?thesis by auto
  next
    case (Suc j)
    with Cons show ?thesis by (cases w) simp_all
  qed
qed

lemma awaited_keep: "i < length ws \<Longrightarrow> ws ! i = Looping \<Longrightarrow>
  awaited (ws[i := Finished]) = awaited ws"
proof (induction ws arbitrary: i)
  case Nil
  then show ?case by simp
next
  case (Cons w ws)
  show ?case
  proof (cases i)
    case 0
    with Cons.prems show ?thesis by simp
  next
    case (Suc j)
    with Cons show ?thesis by (cases w) simp_all
  qed
qed

lemma awaited_take_length: "i < length ws \<Longrightarrow> ws ! i = Looping \<Longrightarrow>
  length (awaited (ws[i := Awaiting a])) = Suc (length (awaited ws))"
  using arg_cong [OF awaited_take, of i ws size a] by simp

lemma awaited_give_length: "i < length ws \<Longrightarrow> ws ! i = Awaiting a \<Longrightarrow>
  length (awaited ws) = Suc (length (awaited (ws[i := Looping])))"
  using arg_cong [OF awaited_give, of i ws a size] by simp

lemma Finished_update: "Finished \<in> set (ws[i := w]) \<Longrightarrow> w \<noteq> Finished \<Longrightarrow> Finished \<in> set ws"
  using set_update_subset_insert [of ws i w] by auto

text \<open>
  A step of a worker moves an address from the queue to the worker, or from the
  worker to the results, or moves nothing: the targets accounted for stay the same.
\<close>

lemma worker_step_accounted:
  assumes "worker_step s s'" "[] \<notin> set (queue s)"
  shows "accounted s' = accounted s \<and> [] \<notin> set (queue s') \<and>
         total (progress s') = total (progress s) \<and>
         current (progress s') + length (awaited (workers s')) + length (queue s') =
           current (progress s) + length (awaited (workers s)) + length (queue s) \<and>
         current (progress s') - length (results s') = current (progress s) - length (results s) \<and>
         (length (results s) \<le> current (progress s) \<longrightarrow>
            length (results s') \<le> current (progress s'))"
  using assms
proof (cases rule: worker_step.cases)
  case (dequeue i a rest)
  with assms(2) show ?thesis
    by (simp add: accounted_def awaited_take awaited_take_length)
next
  case (dequeue_falsy i rest)
  with assms(2) show ?thesis by simp
next
  case (leave i)
  then show ?thesis using assms(2) by (simp add: accounted_def awaited_keep)
next
  case (resolved i a env h)
  from scanHost_Inr [OF resolved(4)] have "ip h = a" by simp
  with resolved assms(2) awaited_give [of i "workers s" a] awaited_give_length [of i "workers s" a]
  show ?thesis by (simp add: accounted_def)
next
  case (rejected i a env e)
  with assms(2) awaited_give [of i "workers s" a] awaited_give_length [of i "workers s" a]
  show ?thesis by (simp add: accounted_def ip_failedHost)
qed

lemma worker_step_Finished:
  assumes "worker_step s s'" "[] \<notin> set (queue s)"
    "Finished \<in> set (workers s) \<longrightarrow> queue s = [] \<or> cancelRequested s"
  shows "workers s' \<noteq> [] \<and> (Finished \<in> set (workers s') \<longrightarrow> queue s' = [] \<or> cancelRequested s')"
  using assms
proof (cases rule: worker_step.cases)
  case (dequeue i a rest)
  with assms(3) show ?thesis by (auto dest: Finished_update)
next
  case (dequeue_falsy i rest)
  with assms(2) show ?thesis by simp
next
  case (leave i)
  then show ?thesis by auto
next
  case (resolved i a env h)
  with assms(3) show ?thesis by (auto dest: Finished_update)
next
  case (rejected i a env e)
  with assms(3) show ?thesis by (auto dest: Finished_update)
qed

lemma worker_step_invariant:
  assumes "worker_step s s'" "runInvariant targets s"
  shows "runInvariant targets s'"
proof -
  from assms(2) have q: "[] \<notin> set (queue s)"
    and f: "Finished \<in> set (workers s) \<longrightarrow> queue s = [] \<or> cancelRequested s"
    by (simp_all add: runInvariant_def)
  from worker_step_accounted [OF assms(1) q] worker_step_Finished [OF assms(1) q f] assms(2)
  show ?thesis by (simp add: runInvariant_def)
qed

lemma other_step_invariant:
  assumes "other_step s s'" "runInvariant targets s"
  shows "runInvariant targets s'"
  using assms
proof (cases rule: other_step.cases)
  case click_clear
  have "accounted (s\<lparr>results := []\<rparr>) \<subseteq># accounted s"
    by (simp add: accounted_def)
  with assms(2) have "accounted (s\<lparr>results := []\<rparr>) \<subseteq># mset targets"
    unfolding runInvariant_def by (meson subset_mset.order_trans)
  with click_clear assms(2) show ?thesis by (simp add: runInvariant_def)
qed (auto simp: runInvariant_def accounted_def cancel_def handleCancel_def
    registerController_def unregister_def)

lemma step_invariant: "step s s' \<Longrightarrow> runInvariant targets s \<Longrightarrow> runInvariant targets s'"
  unfolding step_def using worker_step_invariant other_step_invariant by blast

lemma run_invariant: "step\<^sup>*\<^sup>* s0 s \<Longrightarrow> runInvariant targets s0 \<Longrightarrow> runInvariant targets s"
  by (induction rule: rtranclp_induct) (auto intro: step_invariant)

lemma worker_step_exact:
  assumes "worker_step s s'" "exactInvariant targets s"
  shows "exactInvariant targets s'"
proof -
  from assms(2) have q: "[] \<notin> set (queue s)" by (simp add: exactInvariant_def)
  from assms(2) have c: "current (progress s) = length (results s)"
    by (simp add: exactInvariant_def)
  have "current (progress s') = length (results s')"
    using assms(1) c by (cases rule: worker_step.cases) simp_all
  with worker_step_accounted [OF assms(1) q] assms(2)
  show ?thesis by (simp add: exactInvariant_def)
qed

lemma other_step_exact:
  assumes "other_step s s'" "results s' = results s" "exactInvariant targets s"
  shows "exactInvariant targets s'"
  using assms
  by (cases rule: other_step.cases)
    (auto simp: exactInvariant_def accounted_def cancel_def handleCancel_def
      registerController_def unregister_def)

lemma run_exact:
  "step_without_clear\<^sup>*\<^sup>* s0 s \<Longrightarrow> exactInvariant targets s0 \<Longrightarrow> exactInvariant targets s"
proof (induction rule: rtranclp_induct)
  case base
  then show ?case .
next
  case (step y z)
  then show ?case
    unfolding step_without_clear_def using worker_step_exact other_step_exact by blast
qed

lemma worker_step_results:
  assumes "worker_step s s'" "resultsInvariant s"
  shows "resultsInvariant s'"
  using assms
proof (cases rule: worker_step.cases)
  case (resolved i a env h)
  from scanHost_Inr [OF resolved(4)] have "respondedInvariant h" by simp
  with resolved assms(2) show ?thesis by (simp add: resultsInvariant_def)
next
  case (rejected i a env e)
  with assms(2) show ?thesis
    by (simp add: resultsInvariant_def respondedInvariant_failedHost)
qed (auto simp: resultsInvariant_def)

lemma other_step_results:
  assumes "other_step s s'" "resultsInvariant s"
  shows "resultsInvariant s'"
  using assms
  by (cases rule: other_step.cases)
    (auto simp: resultsInvariant_def cancel_def handleCancel_def registerController_def unregister_def)

lemma run_results: "step\<^sup>*\<^sup>* s0 s \<Longrightarrow> resultsInvariant s0 \<Longrightarrow> resultsInvariant s"
proof (induction rule: rtranclp_induct)
  case base
  then show ?case .
next
  case (step y z)
  then show ?case
    unfolding step_def using worker_step_results other_step_results by blast
qed

text \<open>The state in which the workers start.\<close>

lemma numberToIp_nonempty: "numberToIp v \<noteq> []"
  by (simp add: numberToIp_def Let_def)

lemma buildTargetList_nonempty_strings:
  "buildTargetList start end' = Some (Inr targets) \<Longrightarrow> [] \<notin> set targets"
  by (auto simp: buildTargetList_def Let_def numberToIp_nonempty [symmetric]
      split: sum.splits jsnum.splits if_splits)

lemma handleScan_start_Started:
  assumes "handleScan_start inp st = Some (Started s0)"
  shows "\<exists>targets. buildTargetList (startIp inp) (endIp inp) = Some (Inr targets) \<and>
           targets \<noteq> [] \<and> parsePorts (portsInput inp) \<noteq> [] \<and>
           0 \<le> min (concurrency inp) (int (length targets)) \<and>
           s0 = st\<lparr>statusMessage := None, cancelRequested := False,
                   progress := \<lparr>current = 0, total = length targets\<rparr>, results := [],
                   isScanning := True, queue := targets,
                   portList := parsePorts (portsInput inp),
                   workers := replicate (nat (min (concurrency inp) (int (length targets))))
                                Looping\<rparr>"
  using assms
  by (auto simp: handleScan_start_def Let_def split: if_splits option.splits sum.splits)

lemma awaited_replicate: "awaited (replicate n Looping) = []"
  by (induction n) simp_all

lemma start_invariants:
  assumes "handleScan_start inp st = Some (Started s0)"
    and "buildTargetList (startIp inp) (endIp inp) = Some (Inr targets)"
    and "1 \<le> concurrency inp"
  shows "runInvariant targets s0 \<and> exactInvariant targets s0"
proof -
  from handleScan_start_Started [OF assms(1)] assms(2)
  have t: "targets \<noteq> []"
    and s0: "s0 = st\<lparr>statusMessage := None, cancelRequested := False,
                   progress := \<lparr>current = 0, total = length targets\<rparr>, results := [],
                   isScanning := True, queue := targets,
                   portList := parsePorts (portsInput inp),
                   workers := replicate (nat (min (concurrency inp) (int (length targets))))
                                Looping\<rparr>"
    by auto
  from t have "1 \<le> int (length targets)" by (cases targets) simp_all
  with assms(3) have "0 < nat (min (concurrency inp) (int (length targets)))"
    by arith
  then have n: "replicate (nat (min (concurrency inp) (int (length targets)))) Looping \<noteq> []"
    by (simp del: min_less_iff_conj)
  have f: "Finished \<notin> set (replicate (nat (min (concurrency inp) (int (length targets)))) Looping)"
    by simp
  have e: "[] \<notin> set targets" using assms(2) by (rule buildTargetList_nonempty_strings)
  show ?thesis
    unfolding runInvariant_def exactInvariant_def accounted_def s0 using n e f
    by (simp add: awaited_replicate del: replicate_empty set_replicate_conv_if)
qed

lemma start_resultsInvariant:
  assumes "handleScan_start inp st = Some (Started s0)"
  shows "resultsInvariant s0"
  using handleScan_start_Started [OF assms] by (auto simp: resultsInvariant_def)

lemma failedHost_shape:
  "list_all (\<lambda>p. status p = Error \<and>
                 errorMessage p = Some (case messageOf e of Some m \<Rightarrow> m
                                        | None \<Rightarrow> js ''Falha desconhecida''))
     (ports (failedHost a ps e)) \<and>
   map port (ports (failedHost a ps e)) = ps \<and> ip (failedHost a ps e) = a \<and>
   \<not> responded (failedHost a ps e)"
  by (simp add: failedHost_def list_all_iff comp_def)

lemma worker_step_effect:
  assumes "worker_step s s'"
  shows "(results s' = results s \<and> progress s' = progress s) \<or>
         (\<exists>i a env.
            i < length (workers s) \<and> workers s ! i = Awaiting a \<and>
            ((\<exists>h. scanHost env a (portList s) = Inr h \<and> ip h = a \<and>
                  results s' = results s @ [h]) \<or>
             (\<exists>e. scanHost env a (portList s) = Inl e \<and>
                  results s' = results s @ [failedHost a (portList s) e])) \<and>
            current (progress s') = current (progress s) + 1 \<and>
            total (progress s') = total (progress s))"
  using assms
proof (cases rule: worker_step.cases)
  case (resolved i a env h)
  from scanHost_Inr [OF resolved(4)] have "ip h = a" by simp
  with resolved show ?thesis by auto
next
  case (rejected i a env e)
  then show ?thesis by auto
qed simp_all

lemma other_step_effect:
  assumes "other_step s s'"
  shows "progress s' = progress s \<and> workLeft s' = workLeft s \<and>
         (results s' = results s \<or> results s' = [])"
  using assms
  by (cases rule: other_step.cases)
    (simp_all add: cancel_def handleCancel_def registerController_def unregister_def workLeft_def)

lemma awaited_allFinished: "list_all (\<lambda>w. w = Finished) ws \<Longrightarrow> awaited ws = []"
  by (induction ws) auto

lemma final_complete:
  assumes "runInvariant targets s" "allFinished s" "\<not> cancelRequested s"
  shows "current (progress s) = total (progress s) \<and> queue s = [] \<and> awaited (workers s) = []"
proof -
  from assms(1) have w: "workers s \<noteq> []" by (simp add: runInvariant_def)
  with assms(2) have "Finished \<in> set (workers s)"
    by (cases "workers s") (simp_all add: allFinished_def)
  with assms(1,3) have q: "queue s = []" by (simp add: runInvariant_def)
  have a: "awaited (workers s) = []"
    using assms(2) by (simp add: allFinished_def awaited_allFinished)
  from assms(1) q a show ?thesis by (simp add: runInvariant_def)
qed

lemma worker_can_step:
  assumes "\<not> allFinished s"
  shows "\<exists>s'. worker_step s s'"
proof -
  from assms obtain i where i: "i < length (workers s)" and n: "workers s ! i \<noteq> Finished"
    by (auto simp: allFinished_def list_all_length)
  show ?thesis
  proof (cases "workers s ! i")
    case Looping
    show ?thesis
    proof (cases "queue s = [] \<or> cancelRequested s")
      case True
      from worker_step.leave [OF i Looping True] show ?thesis ..
    next
      case False
      then obtain a rest where q: "queue s = a # rest" and c: "\<not> cancelRequested s"
        by (cases "queue s") auto
      show ?thesis
      proof (cases "a = []")
        case True
        with q have "queue s = [] # rest" by simp
        from worker_step.dequeue_falsy [OF i Looping this c] show ?thesis ..
      next
        case False
        from worker_step.dequeue [OF i Looping q c False] show ?thesis ..
      qed
    qed
  next
    case (Awaiting a)
    obtain h where "scanHost (\<lambda>i. Fulfilled 0) a (portList s) = Inr h"
      using scanHost_resolves [of "portList s" "\<lambda>i. Fulfilled 0" a] by auto
    from worker_step.resolved [OF i Awaiting this] show ?thesis ..
  next
    case Finished
    with n show ?thesis by simp
  qed
qed

lemma weight_update:
  "i < length ws \<Longrightarrow>
   sum_list (map workerWeight (ws[i := w])) + workerWeight (ws ! i) =
   sum_list (map workerWeight ws) + workerWeight w"
proof (induction ws arbitrary: i)
  case Nil
  then show ?case by simp
next
  case (Cons x ws)
  then show ?case by (cases i) auto
qed

lemma worker_step_decreases:
  assumes "worker_step s s'"
  shows "workLeft s' < workLeft s"
  using assms
proof (cases rule: worker_step.cases)
  case (dequeue i a rest)
  with weight_update [of i "workers s" "Awaiting a"] show ?thesis
    by (simp add: workLeft_def)
next
  case (dequeue_falsy i rest)
  with weight_update [of i "workers s" Finished] show ?thesis
    by (simp add: workLeft_def)
next
  case (leave i)
  with weight_update [of i "workers s" Finished] show ?thesis
    by (simp add: workLeft_def)
next
  case (resolved i a env h)
  with weight_update [of i "workers s" Looping] show ?thesis
    by (simp add: workLeft_def)
next
  case (rejected i a env e)
  with weight_update [of i "workers s" Looping] show ?thesis
    by (simp add: workLeft_def)
qed

text \<open>The example run.\<close>

lemmas run_eval = handleScan_start_def buildTargetList_def ipToNumber_def Number_def
  unsignedDecimal_def exponentPart_def scaled_def safeInt_def jsadd_def jstimes_def trim_def
  isWhiteSpace_def isDigit_def digitsValue_def js_def numberToIp_def jsrem_def ToString_def
  natDigits.simps MAX_TARGETS_def parsePorts_def chunks_def addPort_def parseInt_def
  trimStart_def isSeparator_def Let_def

lemma example_start: "handleScan_start exampleInputs initialState = Some (Started run0)"
  by (simp add: exampleInputs_def initialState_def run0_def run_eval upt_rec)

lemma example_targets:
  "buildTargetList (startIp exampleInputs) (endIp exampleInputs) =
     Some (Inr [js ''10.0.0.1'', js ''10.0.0.2''])"
  by (simp add: exampleInputs_def run_eval upt_rec)

lemma example_dequeue: "worker_step run0 run1"
  using worker_step.dequeue [of 0 run0 "js ''10.0.0.1''" "[js ''10.0.0.2'']"]
  by (simp add: run0_def run1_def js_def)

lemma example_host: "scanHost (\<lambda>i. Fulfilled 5) (js ''10.0.0.1'') [80] = Inr exampleHost"
  by (simp add: scanHost_def scanPort_settled_def protocolForPort_def exampleHost_def)

lemma example_resolved: "worker_step run1 run2"
  using worker_step.resolved [of 0 run1 "js ''10.0.0.1''" "\<lambda>i. Fulfilled 5" exampleHost]
    example_host
  by (simp add: run0_def run1_def run2_def)

lemma example_steps:
  "step run0 run1" "step run1 run2" "step_without_clear run0 run1" "step_without_clear run1 run2"
  using example_dequeue example_resolved by (simp_all add: step_def step_without_clear_def)

lemma example_run: "step\<^sup>*\<^sup>* run0 run2"
  using example_steps(1,2) by (meson rtranclp.rtrancl_into_rtrancl rtranclp.rtrancl_refl)

lemma example_run1: "step\<^sup>*\<^sup>* run0 run1"
  using example_steps(1) by (meson rtranclp.rtrancl_into_rtrancl rtranclp.rtrancl_refl)

lemma example_run_quiet: "step_without_clear\<^sup>*\<^sup>* run0 run2"
  using example_steps(3,4) by (meson rtranclp.rtrancl_into_rtrancl rtranclp.rtrancl_refl)

text \<open>
  Claim C1: in every state of a run started by \<open>handleScan\<close>, every host result in
  \<open>results\<close> has \<open>responded\<close> true if and only if one of its ports is \<open>Open\<close> or all of
  them are \<open>Timeout\<close>. This holds of what \<open>scanHost\<close> resolves with and of the
  \<open>failedHost\<close> of the worker's \<open>catch\<close>: the port list of a run is never empty
  (\<open>handleScan\<close> refuses an empty one), so a \<open>failedHost\<close>, all of whose ports are
  \<open>Error\<close>, has a port that is not \<open>Timeout\<close>.
\<close>

theorem responded_published:
  assumes "handleScan_start inp st = Some (Started s0)" "step\<^sup>*\<^sup>* s0 s" "h \<in> set (results s)"
  shows "(responded h \<longleftrightarrow>
            (\<exists>p \<in> set (ports h). status p = Open) \<or> (\<forall>p \<in> set (ports h). status p = Timeout)) \<and>
         (\<forall>h'. scanHost env a (portList s) = Inr h' \<longrightarrow>
            (responded h' \<longleftrightarrow>
               (\<exists>p \<in> set (ports h'). status p = Open) \<or>
               (\<forall>p \<in> set (ports h'). status p = Timeout))) \<and>
         (responded (failedHost a (portList s) e) \<longleftrightarrow>
            (\<exists>p \<in> set (ports (failedHost a (portList s) e)). status p = Open) \<or>
            (\<forall>p \<in> set (ports (failedHost a (portList s) e)). status p = Timeout))"
proof -
  have i: "resultsInvariant s"
    using assms(2) start_resultsInvariant [OF assms(1)] by (rule run_results)
  with assms(3) have "respondedInvariant h"
    by (simp add: resultsInvariant_def list_all_iff)
  moreover have "\<forall>h'. scanHost env a (portList s) = Inr h' \<longrightarrow> respondedInvariant h'"
    using scanHost_Inr by blast
  moreover have "respondedInvariant (failedHost a (portList s) e)"
    using i by (simp add: resultsInvariant_def respondedInvariant_failedHost)
  ultimately show ?thesis
    by (simp add: respondedInvariant_def list_ex_iff list_all_iff)
qed

theorem responded_published_witness:
  "handleScan_start exampleInputs initialState = Some (Started run0) \<and>
   step\<^sup>*\<^sup>* run0 run2 \<and> exampleHost \<in> set (results run2) \<and>
   scanHost (\<lambda>i. Fulfilled 5) (js ''10.0.0.1'') (portList run2) = Inr exampleHost \<and>
   responded exampleHost \<and> status (hd (ports exampleHost)) = Open \<and>
   \<not> responded (failedHost (js ''10.0.0.2'') [80] (OtherError None))"
proof -
  have m: "exampleHost \<in> set (results run2)" by (simp add: run2_def)
  have p: "portList run2 = [80]" by (simp add: run2_def run1_def run0_def)
  from responded_published [OF example_start example_run m, of "\<lambda>i. Fulfilled 5" "js ''10.0.0.2''" "OtherError None"]
  have "responded (failedHost (js ''10.0.0.2'') [80] (OtherError None)) \<longleftrightarrow>
          (\<exists>p \<in> set (ports (failedHost (js ''10.0.0.2'') [80] (OtherError None))). status p = Open) \<or>
          (\<forall>p \<in> set (ports (failedHost (js ''10.0.0.2'') [80] (OtherError None))). status p = Timeout)"
    unfolding p by blast
  then have "\<not> responded (failedHost (js ''10.0.0.2'') [80] (OtherError None))"
    by (simp add: failedHost_def)
  with example_start example_run m example_host p show ?thesis by (simp add: exampleHost_def)
qed

text \<open>
  After \<open>await Promise.all(workers)\<close>: the run reports that it is done exactly when
  no cancellation was requested, and leaves results and progress as they are.
\<close>

lemma handleScan_finish_message:
  "statusMessage (handleScan_finish s) =
     (if cancelRequested s then statusMessage s else Some msgDone) \<and>
   results (handleScan_finish s) = results s \<and> progress (handleScan_finish s) = progress s"
  by (simp add: handleScan_finish_def finallyBlock_def)

text \<open>A run without workers: nothing is scanned, whatever else happens.\<close>

lemma no_worker_no_step: "workers s = [] \<Longrightarrow> \<not> worker_step s s'"
  by (auto elim: worker_step.cases)

lemma other_step_idle_workers:
  assumes "other_step s s'" "workers s = []" "results s = []"
  shows "workers s' = [] \<and> results s' = [] \<and> progress s' = progress s \<and> queue s' = queue s"
  using assms
  by (cases rule: other_step.cases)
    (simp_all add: cancel_def handleCancel_def registerController_def unregister_def)

lemma idle_workers_run:
  assumes "step\<^sup>*\<^sup>* s0 s" "workers s0 = []" "results s0 = []"
  shows "workers s = [] \<and> results s = [] \<and> progress s = progress s0 \<and> queue s = queue s0"
  using assms
proof (induction rule: rtranclp_induct)
  case base
  then show ?case by simp
next
  case (step y z)
  then have y: "workers y = []" "results y = []" "progress y = progress s0" "queue y = queue s0"
    by simp_all
  from step(2) y(1) have "other_step y z" by (simp add: step_def no_worker_no_step)
  from other_step_idle_workers [OF this y(1,2)] y(3,4) show ?case by simp
qed

text \<open>
  Claim C5 says that on a run that is not cancelled the completed-host count reaches
  the number of targets. \<open>handleScan\<close> does not check the concurrency it reads,
  although the field asks for at least 1 (\<open>min={1}\<close>, lines 397-404) and \<open>handleScan\<close>
  refuses an empty port list and an empty range. With a concurrency of 0 it builds
  \<open>new Array(0)\<close>: no worker is launched, \<open>Promise.all([])\<close> resolves at once, and in
  every state of such a run, over any range and port list that \<open>handleScan\<close> accepts,
  no worker can take a step, no host is dequeued, the results are empty and the
  counter is 0 while the total is the number of targets, which is not 0. If no
  cancellation is requested the run ends with the message of a completed scan.
\<close>

theorem handleScan_zero_concurrency:
  assumes "handleScan_start inp st = Some (Started s0)"
    and "buildTargetList (startIp inp) (endIp inp) = Some (Inr targets)"
    and "concurrency inp = 0"
    and "step\<^sup>*\<^sup>* s0 s"
  shows "workers s = [] \<and> allFinished s \<and> (\<forall>s'. \<not> worker_step s s') \<and>
         results s = [] \<and> queue s = targets \<and>
         current (progress s) = 0 \<and> total (progress s) = length targets \<and>
         0 < length targets \<and>
         (\<not> cancelRequested s \<longrightarrow>
            statusMessage (handleScan_finish s) = Some msgDone \<and>
            results (handleScan_finish s) = [] \<and>
            current (progress (handleScan_finish s)) = 0 \<and>
            total (progress (handleScan_finish s)) = length targets)"
proof -
  from handleScan_start_Started [OF assms(1)] assms(2,3)
  have t: "targets \<noteq> []"
    and s0: "s0 = st\<lparr>statusMessage := None, cancelRequested := False,
                   progress := \<lparr>current = 0, total = length targets\<rparr>, results := [],
                   isScanning := True, queue := targets,
                   portList := parsePorts (portsInput inp),
                   workers := replicate (nat (min 0 (int (length targets)))) Looping\<rparr>"
    by auto
  have w0: "workers s0 = []" and r0: "results s0 = []" and q0: "queue s0 = targets"
    and p0: "progress s0 = \<lparr>current = 0, total = length targets\<rparr>"
    by (simp_all add: s0)
  from idle_workers_run [OF assms(4) w0 r0] q0 p0
  have w: "workers s = []" and r: "results s = []" and q: "queue s = targets"
    and p: "progress s = \<lparr>current = 0, total = length targets\<rparr>"
    by simp_all
  have a: "allFinished s" using w by (simp add: allFinished_def)
  have n: "\<forall>s'. \<not> worker_step s s'" using w by (simp add: no_worker_no_step)
  have f: "\<not> cancelRequested s \<longrightarrow>
            statusMessage (handleScan_finish s) = Some msgDone \<and>
            results (handleScan_finish s) = [] \<and>
            current (progress (handleScan_finish s)) = 0 \<and>
            total (progress (handleScan_finish s)) = length targets"
    using handleScan_finish_message [of s] r p by simp
  from t have l: "0 < length targets" by simp
  from w a n r q p l f show ?thesis by simp
qed

text \<open>The example inputs with the concurrency set to 0:\<close>

theorem handleScan_zero_concurrency_witness:
  "handleScan_start (exampleInputs\<lparr>concurrency := 0\<rparr>) initialState =
     Some (Started (run0\<lparr>workers := []\<rparr>)) \<and>
   buildTargetList (startIp (exampleInputs\<lparr>concurrency := 0\<rparr>))
     (endIp (exampleInputs\<lparr>concurrency := 0\<rparr>)) = Some (Inr [js ''10.0.0.1'', js ''10.0.0.2'']) \<and>
   concurrency (exampleInputs\<lparr>concurrency := 0\<rparr>) = 0 \<and>
   \<not> cancelRequested (run0\<lparr>workers := []\<rparr>) \<and>
   allFinished (run0\<lparr>workers := []\<rparr>) \<and>
   statusMessage (handleScan_finish (run0\<lparr>workers := []\<rparr>)) = Some msgDone \<and>
   results (handleScan_finish (run0\<lparr>workers := []\<rparr>)) = [] \<and>
   current (progress (handleScan_finish (run0\<lparr>workers := []\<rparr>))) = 0 \<and>
   total (progress (handleScan_finish (run0\<lparr>workers := []\<rparr>))) = 2"
proof -
  have s: "handleScan_start (exampleInputs\<lparr>concurrency := 0\<rparr>) initialState =
     Some (Started (run0\<lparr>workers := []\<rparr>))"
    by (simp add: exampleInputs_def initialState_def run0_def run_eval upt_rec)
  have b: "buildTargetList (startIp (exampleInputs\<lparr>concurrency := 0\<rparr>))
     (endIp (exampleInputs\<lparr>concurrency := 0\<rparr>)) = Some (Inr [js ''10.0.0.1'', js ''10.0.0.2''])"
    using example_targets by simp
  have c: "concurrency (exampleInputs\<lparr>concurrency := 0\<rparr>) = 0" by simp
  have n: "\<not> cancelRequested (run0\<lparr>workers := []\<rparr>)" by (simp add: run0_def)
  have r: "step\<^sup>*\<^sup>* (run0\<lparr>workers := []\<rparr>) (run0\<lparr>workers := []\<rparr>)" by simp
  from handleScan_zero_concurrency [OF s b c r] s b c n show ?thesis by simp
qed

text \<open>
  With a concurrency of at least 1 the workers do what claim C5 says. In every state
  of a run over the addresses \<open>targets\<close>:
  \<^item> the total is the number of targets, and the completed hosts, the hosts being
    scanned and the hosts in the queue are together as many as the targets;
  \<^item> the results are at most as many as the completed hosts, and their addresses,
    with the hosts being scanned and the hosts queued, are among the targets; as long
    as the user has not cleared the results, the counter equals the number of results
    and every target is in exactly one of these places;
  \<^item> a step of a worker either leaves results and progress alone, or ends the scan
    of one address a worker was suspended on: it appends one host result for that
    address, the one \<open>scanHost\<close> resolved with or the \<open>failedHost\<close> for the error it
    rejected with, and adds one to the counter; any other step leaves the progress
    alone and either leaves the results alone or empties them;
  \<^item> a host scan can reject (it does when the \<open>fetch\<close> of a probe rejects with a
    \<open>TypeError\<close> without a message), and then the worker can take the step that
    appends the \<open>failedHost\<close> and adds one to the counter;
  \<^item> a \<open>failedHost\<close> has one entry per port, each \<open>Error\<close> with the error's message;
  \<^item> when all workers have returned and no cancellation was requested, the counter
    has reached the total, and the results, if never cleared, are for exactly the
    targets;
  \<^item> until all workers have returned some worker can take a step, and every step of
    a worker lowers \<open>workLeft\<close>, which no other step changes, so the workers return
    after finitely many steps of their own.
\<close>

lemma worker_loop_accounting:
  assumes "handleScan_start inp st = Some (Started s0)"
    and "buildTargetList (startIp inp) (endIp inp) = Some (Inr targets)"
    and "1 \<le> concurrency inp"
    and "step\<^sup>*\<^sup>* s0 s"
  shows "total (progress s) = length targets \<and>
         current (progress s) + length (awaited (workers s)) + length (queue s) = length targets \<and>
         length (results s) \<le> current (progress s) \<and>
         accounted s \<subseteq># mset targets \<and>
         (step_without_clear\<^sup>*\<^sup>* s0 s \<longrightarrow>
            current (progress s) = length (results s) \<and> accounted s = mset targets) \<and>
         (\<forall>s'. worker_step s s' \<longrightarrow>
            (results s' = results s \<and> progress s' = progress s) \<or>
            (\<exists>i a env.
               i < length (workers s) \<and> workers s ! i = Awaiting a \<and>
               ((\<exists>h. scanHost env a (portList s) = Inr h \<and> ip h = a \<and>
                     results s' = results s @ [h]) \<or>
                (\<exists>e. scanHost env a (portList s) = Inl e \<and>
                     results s' = results s @ [failedHost a (portList s) e])) \<and>
               current (progress s') = current (progress s) + 1 \<and>
               total (progress s') = total (progress s))) \<and>
         (\<forall>s'. other_step s s' \<longrightarrow>
            progress s' = progress s \<and> (results s' = results s \<or> results s' = [])) \<and>
         (\<forall>i a. i < length (workers s) \<and> workers s ! i = Awaiting a \<longrightarrow>
            scanHost (\<lambda>k. Rejected (TypeError None)) a (portList s) = Inl toLowerCaseFailure \<and>
            worker_step s
              (s\<lparr>results := results s @ [failedHost a (portList s) toLowerCaseFailure],
                 progress := (progress s)\<lparr>current := current (progress s) + 1\<rparr>,
                 workers := (workers s)[i := Looping]\<rparr>)) \<and>
         (\<forall>a e. list_all (\<lambda>p. status p = Error \<and>
                              errorMessage p = Some (case messageOf e of Some m \<Rightarrow> m
                                                     | None \<Rightarrow> js ''Falha desconhecida''))
                   (ports (failedHost a (portList s) e)) \<and>
                 map port (ports (failedHost a (portList s) e)) = portList s \<and>
                 ip (failedHost a (portList s) e) = a) \<and>
         (allFinished s \<and> \<not> cancelRequested s \<longrightarrow>
            current (progress s) = total (progress s) \<and>
            (step_without_clear\<^sup>*\<^sup>* s0 s \<longrightarrow> mset (map ip (results s)) = mset targets)) \<and>
         (\<not> allFinished s \<longrightarrow> (\<exists>s'. worker_step s s')) \<and>
         (\<forall>s'. worker_step s s' \<longrightarrow> workLeft s' < workLeft s) \<and>
         (\<forall>s'. other_step s s' \<longrightarrow> workLeft s' = workLeft s)"
proof -
  note start = start_invariants [OF assms(1-3)]
  have i: "runInvariant targets s"
    using assms(4) start [THEN conjunct1] by (rule run_invariant)
  have r: "resultsInvariant s"
    using assms(4) start_resultsInvariant [OF assms(1)] by (rule run_results)
  have x: "exactInvariant targets s" if "step_without_clear\<^sup>*\<^sup>* s0 s"
    using that start [THEN conjunct2] by (rule run_exact)
  have c1: "total (progress s) = length targets"
    and c2: "current (progress s) + length (awaited (workers s)) + length (queue s) =
             length targets"
    and c3: "length (results s) \<le> current (progress s)"
    and c4: "accounted s \<subseteq># mset targets"
    using i by (simp_all add: runInvariant_def)
  have c5: "step_without_clear\<^sup>*\<^sup>* s0 s \<longrightarrow>
            current (progress s) = length (results s) \<and> accounted s = mset targets"
    using x by (simp add: exactInvariant_def)
  have c6: "\<forall>s'. worker_step s s' \<longrightarrow>
            (results s' = results s \<and> progress s' = progress s) \<or>
            (\<exists>i a env.
               i < length (workers s) \<and> workers s ! i = Awaiting a \<and>
               ((\<exists>h. scanHost env a (portList s) = Inr h \<and> ip h = a \<and>
                     results s' = results s @ [h]) \<or>
                (\<exists>e. scanHost env a (portList s) = Inl e \<and>
                     results s' = results s @ [failedHost a (portList s) e])) \<and>
               current (progress s') = current (progress s) + 1 \<and>
               total (progress s') = total (progress s))"
    using worker_step_effect [of s] by blast
  have c7: "\<forall>s'. other_step s s' \<longrightarrow>
            progress s' = progress s \<and> (results s' = results s \<or> results s' = [])"
    using other_step_effect [of s] by blast
  have p: "portList s \<noteq> []" using r by (simp add: resultsInvariant_def)
  have c8: "\<forall>i a. i < length (workers s) \<and> workers s ! i = Awaiting a \<longrightarrow>
            scanHost (\<lambda>k. Rejected (TypeError None)) a (portList s) = Inl toLowerCaseFailure \<and>
            worker_step s
              (s\<lparr>results := results s @ [failedHost a (portList s) toLowerCaseFailure],
                 progress := (progress s)\<lparr>current := current (progress s) + 1\<rparr>,
                 workers := (workers s)[i := Looping]\<rparr>)"
  proof (intro allI impI)
    fix i a
    assume h: "i < length (workers s) \<and> workers s ! i = Awaiting a"
    have e: "scanHost (\<lambda>k. Rejected (TypeError None)) a (portList s) = Inl toLowerCaseFailure"
      using p by (rule scanHost_rejects)
    from h have "i < length (workers s)" "workers s ! i = Awaiting a" by simp_all
    from worker_step.rejected [OF this e] e
    show "scanHost (\<lambda>k. Rejected (TypeError None)) a (portList s) = Inl toLowerCaseFailure \<and>
            worker_step s
              (s\<lparr>results := results s @ [failedHost a (portList s) toLowerCaseFailure],
                 progress := (progress s)\<lparr>current := current (progress s) + 1\<rparr>,
                 workers := (workers s)[i := Looping]\<rparr>)"
      by simp
  qed
  have c9: "\<forall>a e. list_all (\<lambda>p. status p = Error \<and>
                              errorMessage p = Some (case messageOf e of Some m \<Rightarrow> m
                                                     | None \<Rightarrow> js ''Falha desconhecida''))
                   (ports (failedHost a (portList s) e)) \<and>
                 map port (ports (failedHost a (portList s) e)) = portList s \<and>
                 ip (failedHost a (portList s) e) = a"
    using failedHost_shape by blast
  have c10: "allFinished s \<and> \<not> cancelRequested s \<longrightarrow>
            current (progress s) = total (progress s) \<and>
            (step_without_clear\<^sup>*\<^sup>* s0 s \<longrightarrow> mset (map ip (results s)) = mset targets)"
  proof (intro impI conjI)
    assume h: "allFinished s \<and> \<not> cancelRequested s"
    with final_complete [OF i] show "current (progress s) = total (progress s)" by simp
    assume "step_without_clear\<^sup>*\<^sup>* s0 s"
    from x [OF this] final_complete [OF i] h
    show "mset (map ip (results s)) = mset targets"
      by (simp add: exactInvariant_def accounted_def)
  qed
  have c11: "\<not> allFinished s \<longrightarrow> (\<exists>s'. worker_step s s')"
    using worker_can_step [of s] by blast
  have c12: "\<forall>s'. worker_step s s' \<longrightarrow> workLeft s' < workLeft s"
    using worker_step_decreases [of s] by blast
  have c13: "\<forall>s'. other_step s s' \<longrightarrow> workLeft s' = workLeft s"
    using other_step_effect [of s] by blast
  show ?thesis
    by (intro conjI) (fact c1 c2 c3 c4 c5 c6 c7 c8 c9 c10 c11 c12 c13)+
qed

text \<open>In the example run, and when the first host scan rejects instead:\<close>

lemma worker_loop_accounting_example:
  "total (progress run2) = 2 \<and>
   current (progress run2) + length (awaited (workers run2)) + length (queue run2) = 2 \<and>
   current (progress run2) = length (results run2) \<and>
   accounted run2 = mset [js ''10.0.0.1'', js ''10.0.0.2''] \<and>
   (\<exists>s'. worker_step run2 s') \<and>
   worker_step run1
     (run1\<lparr>results := [failedHost (js ''10.0.0.1'') [80] toLowerCaseFailure],
           progress := \<lparr>current = 1, total = 2\<rparr>,
           workers := [Looping]\<rparr>)"
proof -
  have c: "1 \<le> concurrency exampleInputs" by (simp add: exampleInputs_def)
  have n: "\<not> allFinished run2" by (simp add: allFinished_def run2_def)
  note a2 = worker_loop_accounting [OF example_start example_targets c example_run]
  note a1 = worker_loop_accounting [OF example_start example_targets c example_run1]
  have w: "0 < length (workers run1) \<and> workers run1 ! 0 = Awaiting (js ''10.0.0.1'')"
    by (simp add: run1_def run0_def)
  from a1 w have "worker_step run1
     (run1\<lparr>results := results run1 @ [failedHost (js ''10.0.0.1'') (portList run1) toLowerCaseFailure],
           progress := (progress run1)\<lparr>current := current (progress run1) + 1\<rparr>,
           workers := (workers run1)[0 := Looping]\<rparr>)"
    by blast
  then have r: "worker_step run1
     (run1\<lparr>results := [failedHost (js ''10.0.0.1'') [80] toLowerCaseFailure],
           progress := \<lparr>current = 1, total = 2\<rparr>,
           workers := [Looping]\<rparr>)"
    by (simp add: run1_def run0_def)
  from a2 n example_run_quiet r show ?thesis by simp
qed




section \<open>Properties of the CSV export\<close>

lemma set_join: "set (join c xs) \<subseteq> insert c (\<Union> (set ` set xs))"
  by (induction c xs rule: join.induct) auto

lemma ToString_no_LF: "10 \<notin> set (ToString i)"
  using natDigits_digits [of "nat i"] natDigits_digits [of "nat (- i)"]
  by (auto simp: ToString_def list_all_iff isDigit_def)

lemma collapseLineBreaks_clean: "list_all (\<lambda>c. \<not> isLineBreak c) (collapseLineBreaks m)"
  by (induction m rule: collapseLineBreaks.induct) (simp_all add: isLineBreak_def)

lemma collapseLineBreaks_no_LF: "10 \<notin> set (collapseLineBreaks m)"
  using collapseLineBreaks_clean [of m] by (auto simp: list_all_iff isLineBreak_def)

lemma upper_names:
  "map (\<lambda>st. toUpperCase (statusText st)) [Open, Closed, Timeout, Error] =
     [js ''OPEN'', js ''CLOSED'', js ''TIMEOUT'', js ''ERROR''] \<and>
   map (\<lambda>h. toUpperCase (protocolText h)) [http, https] = [js ''HTTP'', js ''HTTPS'']"
  by (simp add: toUpperCase_def statusText_def protocolText_def js_def)

lemma upper_no_LF:
  "10 \<notin> set (toUpperCase (statusText st))" "10 \<notin> set (toUpperCase (protocolText h))"
  by (cases st; simp add: toUpperCase_def statusText_def js_def)
    (cases h; simp add: toUpperCase_def protocolText_def js_def)

lemma header_no_LF: "10 \<notin> set header"
  by (simp add: header_def js_def)

lemma csvLine_fields:
  "csvLine host p =
     join 44 [ip host, ToString (port p), toUpperCase (protocolText (protocol p)),
              toUpperCase (statusText (status p)),
              (case latency p of None \<Rightarrow> [] | Some l \<Rightarrow> ToString l),
              (case errorMessage p of None \<Rightarrow> [] | Some m \<Rightarrow> collapseLineBreaks m)]"
proof -
  have "(case errorMessage p of None \<Rightarrow> [] | Some m \<Rightarrow> if m = [] then [] else collapseLineBreaks m) =
        (case errorMessage p of None \<Rightarrow> [] | Some m \<Rightarrow> collapseLineBreaks m)"
    by (cases "errorMessage p") auto
  then show ?thesis by (simp add: csvLine_def)
qed

lemma csvLine_no_LF:
  assumes "10 \<notin> set (ip host)"
  shows "10 \<notin> set (csvLine host p)"
proof -
  have l: "10 \<notin> set (case latency p of None \<Rightarrow> [] | Some l \<Rightarrow> ToString l)"
    by (cases "latency p") (simp_all add: ToString_no_LF)
  have m: "10 \<notin> set (case errorMessage p of None \<Rightarrow> [] | Some m \<Rightarrow> collapseLineBreaks m)"
    by (cases "errorMessage p") (simp_all add: collapseLineBreaks_no_LF)
  have "set (csvLine host p) \<subseteq>
      insert 44 (\<Union> (set ` set [ip host, ToString (port p), toUpperCase (protocolText (protocol p)),
              toUpperCase (statusText (status p)),
              (case latency p of None \<Rightarrow> [] | Some l \<Rightarrow> ToString l),
              (case errorMessage p of None \<Rightarrow> [] | Some m \<Rightarrow> collapseLineBreaks m)]))"
    unfolding csvLine_fields by (rule set_join)
  moreover have "10 \<notin> insert 44 (\<Union> (set ` set [ip host, ToString (port p), toUpperCase (protocolText (protocol p)),
              toUpperCase (statusText (status p)),
              (case latency p of None \<Rightarrow> [] | Some l \<Rightarrow> ToString l),
              (case errorMessage p of None \<Rightarrow> [] | Some m \<Rightarrow> collapseLineBreaks m)]))"
    using assms l m by (simp add: ToString_no_LF upper_no_LF)
  ultimately show ?thesis by blast
qed

lemma csv_split:
  assumes "\<forall>h \<in> set rs. 10 \<notin> set (ip h)"
  shows "split_sep 10 (csvContent rs) =
           header # concat (map (\<lambda>host. map (csvLine host) (ports host)) rs)"
  unfolding csvContent_def
proof (rule split_sep_join)
  show "header # concat (map (\<lambda>host. map (csvLine host) (ports host)) rs) \<noteq> []" by simp
  show "\<forall>x \<in> set (header # concat (map (\<lambda>host. map (csvLine host) (ports host)) rs)). 10 \<notin> set x"
    using assms by (auto simp: header_no_LF csvLine_no_LF)
qed

lemma numberToIp_no_LF: "10 \<notin> set (numberToIp v)"
proof -
  have "set (numberToIp v) \<subseteq> insert 46 (\<Union> (set ` set (map ToString
      [jsrem (v div 256 ^ 3) 256, jsrem (v div 256 ^ 2) 256, jsrem (v div 256) 256, jsrem v 256])))"
    unfolding numberToIp_def Let_def by (rule set_join)
  then show ?thesis using ToString_no_LF by fastforce
qed

text \<open>
  Claim C8, as the specification states it, is about every sequence of host results.
  For the empty sequence \<open>handleDownload\<close> returns before it builds any text, so there
  is no header row; and an address that contains a line feed (no address of a scan
  does) spreads its data row over two rows.
\<close>

theorem csv_export_counterexample:
  "handleDownload [] = None \<and>
   length (split_sep 10 (csvContent
     [\<lparr>ip = [49, 10, 50],
       ports = [\<lparr>port = 80, protocol = http, status = Closed, latency = None,
                 errorMessage = None\<rparr>],
       responded = False\<rparr>])) = 3"
  by (simp add: handleDownload_def csvContent_def csvLine_def header_def js_def ToString_def
      natDigits.simps toUpperCase_def protocolText_def statusText_def)

text \<open>
  Claim C8, amended: for every non-empty sequence of host results whose addresses
  contain no line feed, \<open>handleDownload\<close> builds a text whose rows, split at the line
  feeds, are the fixed header row followed by one row per port result, host by host
  in order: the sum of the numbers of ports in all. Each data row joins with commas
  the address, the port, the protocol and the status in upper case, the latency or
  nothing, and the error message with every run of CR and LF replaced by one space, or
  nothing.
\<close>

theorem csv_export_rows:
  assumes "rs \<noteq> []" "\<forall>h \<in> set rs. 10 \<notin> set (ip h)"
  shows "\<exists>csv. handleDownload rs = Some csv \<and>
           split_sep 10 csv =
             header #
             concat (map (\<lambda>h. map (\<lambda>p.
               join 44 [ip h, ToString (port p), toUpperCase (protocolText (protocol p)),
                        toUpperCase (statusText (status p)),
                        (case latency p of None \<Rightarrow> [] | Some l \<Rightarrow> ToString l),
                        (case errorMessage p of None \<Rightarrow> [] | Some m \<Rightarrow> collapseLineBreaks m)])
               (ports h)) rs) \<and>
           length (split_sep 10 csv) = 1 + sum_list (map (\<lambda>h. length (ports h)) rs) \<and>
           header = js ''IP,Porta,Protocolo,Status,Lat'' @ [234] @ js ''ncia(ms),Mensagem'' \<and>
           (\<forall>m. list_all (\<lambda>c. \<not> isLineBreak c) (collapseLineBreaks m)) \<and>
           map (\<lambda>st. toUpperCase (statusText st)) [Open, Closed, Timeout, Error] =
             [js ''OPEN'', js ''CLOSED'', js ''TIMEOUT'', js ''ERROR''] \<and>
           map (\<lambda>h. toUpperCase (protocolText h)) [http, https] = [js ''HTTP'', js ''HTTPS'']"
proof -
  have d: "handleDownload rs = Some (csvContent rs)"
    using assms(1) by (simp add: handleDownload_def)
  have f: "(\<lambda>host. map (csvLine host) (ports host)) =
           (\<lambda>h. map (\<lambda>p.
               join 44 [ip h, ToString (port p), toUpperCase (protocolText (protocol p)),
                        toUpperCase (statusText (status p)),
                        (case latency p of None \<Rightarrow> [] | Some l \<Rightarrow> ToString l),
                        (case errorMessage p of None \<Rightarrow> [] | Some m \<Rightarrow> collapseLineBreaks m)])
               (ports h))"
    by (intro ext map_cong refl csvLine_fields)
  have s: "split_sep 10 (csvContent rs) =
             header # concat (map (\<lambda>host. map (csvLine host) (ports host)) rs)"
    using assms(2) by (rule csv_split)
  have l: "length (split_sep 10 (csvContent rs)) = 1 + sum_list (map (\<lambda>h. length (ports h)) rs)"
    unfolding s by (simp add: length_concat comp_def)
  show ?thesis
    using d s [unfolded f] l collapseLineBreaks_clean upper_names by (simp add: header_def)
qed

theorem csv_export_rows_witness:
  "[exampleHost] \<noteq> [] \<and> 10 \<notin> set (ip exampleHost) \<and>
   handleDownload [exampleHost] =
     Some (header @ [10] @ js ''10.0.0.1,80,HTTP,OPEN,5,'') \<and>
   length (split_sep 10 (header @ [10] @ js ''10.0.0.1,80,HTTP,OPEN,5,'')) = 2 \<and>
   collapseLineBreaks (js ''a'' @ [13, 10, 10] @ js ''b'') = js ''a b''"
proof -
  have n: "[exampleHost] \<noteq> []" by simp
  have i: "\<forall>h \<in> set [exampleHost]. 10 \<notin> set (ip h)" by (simp add: exampleHost_def js_def)
  have v: "handleDownload [exampleHost] = Some (header @ [10] @ js ''10.0.0.1,80,HTTP,OPEN,5,'')"
    by (simp add: handleDownload_def csvContent_def csvLine_def exampleHost_def js_def
        ToString_def natDigits.simps toUpperCase_def protocolText_def statusText_def)
  have c: "collapseLineBreaks (js ''a'' @ [13, 10, 10] @ js ''b'') = js ''a b''"
    by (simp add: js_def isLineBreak_def)
  from csv_export_rows [OF n i] v
  have "length (split_sep 10 (header @ [10] @ js ''10.0.0.1,80,HTTP,OPEN,5,'')) = 2"
    by (auto simp: exampleHost_def)
  with n i v c show ?thesis by simp
qed

end
